theory Spec2Isabelle
  imports Main "HOL-Library.AList"
begin

section \<open>Routing key extraction (switchboard.ts, extractHostname)\<close>

text \<open>
  The request as \<open>extractHostname\<close> reads it: \<open>req.get('host')\<close> and
  \<open>req.get('x-app-name')\<close>, each \<open>undefined\<close> (here \<open>None\<close>) when the header is absent.
\<close>

record request =
  host :: "string option"
  x_app_name :: "string option"

text \<open>
  JavaScript's \<open>String.prototype.split\<close> with a one-character separator: the pieces between
  the separators, in order; the empty string splits into one empty piece.
\<close>

fun split_on :: "char \<Rightarrow> string \<Rightarrow> string list" where
  "split_on c [] = [[]]"
| "split_on c (x # xs) =
     (if x = c then [] # split_on c xs
      else (case split_on c xs of
              [] \<Rightarrow> [[x]]
            | w # ws \<Rightarrow> (x # w) # ws))"

text \<open>Indexing an array at 0 gives \<open>undefined\<close> on the empty array.\<close>

definition first :: "'a list \<Rightarrow> 'a option" where
  "first xs = (case xs of [] \<Rightarrow> None | x # _ \<Rightarrow> Some x)"

text \<open>\<open>a ?? b\<close>: the left operand unless it is \<open>undefined\<close>.\<close>

definition nullish :: "'a option \<Rightarrow> 'a \<Rightarrow> 'a" where
  "nullish a b = (case a of None \<Rightarrow> b | Some v \<Rightarrow> v)"

text \<open>A string (or \<open>undefined\<close>) is truthy when it is present and not empty.\<close>

definition truthy :: "string option \<Rightarrow> bool" where
  "truthy a = (case a of None \<Rightarrow> False | Some v \<Rightarrow> v \<noteq> [])"

definition extractHostname :: "request \<Rightarrow> string \<Rightarrow> string" where
  "extractHostname req defaultHostname =
     (let h = (if truthy (host req) then the (host req) else []);
          hostWithoutPort = nullish (first (split_on CHR '':'' h)) []
      in if CHR ''.'' \<in> set hostWithoutPort
         then nullish (first (split_on CHR ''.'' hostWithoutPort)) defaultHostname
         else if truthy (x_app_name req) then the (x_app_name req)
         else defaultHostname)"

text \<open>
  The precedence in the specification's words, for comparison with the code: the Host value
  with a trailing \<open>:port\<close> (a colon followed by digits up to the end) removed; the first
  dot-separated label when a dot remains; else the override header's value verbatim when the
  header is present; else the default.
\<close>

definition is_digit :: "char \<Rightarrow> bool" where
  "is_digit c = (c \<in> set ''0123456789'')"

definition strip_trailing_port :: "string \<Rightarrow> string" where
  "strip_trailing_port h =
     (case dropWhile is_digit (rev h) of
        [] \<Rightarrow> h
      | c # r \<Rightarrow> if c = CHR '':'' then rev r else h)"

definition routing_key_spec :: "request \<Rightarrow> string \<Rightarrow> string" where
  "routing_key_spec req defaultHostname =
     (let h = strip_trailing_port (case host req of None \<Rightarrow> [] | Some v \<Rightarrow> v)
      in if CHR ''.'' \<in> set h then takeWhile (\<lambda>c. c \<noteq> CHR ''.'') h
         else (case x_app_name req of
                 Some v \<Rightarrow> v
               | None \<Rightarrow> defaultHostname))"

section \<open>The server pool (server-pool.ts, types.ts, server-resource.ts)\<close>

text \<open>
  The pool runs on the Effection runtime and on Node's event loop. The model is a state
  machine whose steps are the turns of the event loop, and it takes the following from the
  runtime:
  \<^item> \<open>scope.run\<close>, called from a request handler, runs the new task at once, up to the
    first point where it waits; so does the code after an \<open>await\<close> or a \<open>call\<close> once the
    promise has settled, before any other request or socket event is handled;
  \<^item> halting a task first unwinds its generator, which runs its \<open>finally\<close> blocks, and
    then tears down what the task owns (the watcher, then the \<open>useExpressServer\<close>
    resource, whose \<open>finally\<close> closes the server and waits for the \<open>close\<close> event);
    \<open>task.halt()\<close> resolves when all of that is done;
  \<^item> the teardown of a scope first unwinds the scope's own generator and then halts the
    tasks created in it, newest first, one after the other;
  \<^item> a failure inside a generator is raised at the point where it waits, so its
    \<open>catch\<close> block runs; the failure of a task spawned by it only unwinds the generator,
    as a halt does;
  \<^item> a task that ends with an error takes down the scope it was created in, once its own
    teardown is complete;
  \<^item> \<open>events.send\<close> hands the event to the subscriptions that are open at that moment,
    and \<open>events.close\<close> ends them: an event sent later reaches no subscriber.
\<close>

text \<open>
  \<open>nextPort++\<close> on a JavaScript number that holds a non-negative integer. The sum is exact
  below \<open>2^53\<close>; from there on it is rounded to the nearest representable number, a tie
  going to the one with the even significand: \<open>2^53 + 1\<close> is rounded back to \<open>2^53\<close>,
  where the counter stays.
\<close>

definition incr :: "nat \<Rightarrow> nat" where
  "incr n = (if n < 2 ^ 53 then n + 1
             else if n < 2 ^ 54 \<and> odd (n div 2) then n + 2
             else n)"

text \<open>
  Lifecycle events as \<open>emitEvent\<close> sends them. The \<open>error\<close> event carries the error
  object; its \<open>message\<close> field is that object's message. \<open>Halted\<close> is the error with
  which the promise of a halted task rejects.
\<close>

datatype pool_error =
    CapacityExceeded nat
  | ProvisioningFailed string
  | Halted

datatype ServerEvent =
    Started string nat
  | Stopped string
  | Error string pool_error

text \<open>
  \<open>ServerInfo\<close>: \<open>server\<close> is \<open>null\<close> (\<open>None\<close>) in the placeholder that
  \<open>doSpawnServer\<close> stores and becomes the handle of the listening server once the
  lifecycle task has it; \<open>task\<close> is the lifecycle task. Tasks, and the server and the
  promises that belong to one provisioning attempt, are named by the number of the attempt.
  \<open>app\<close> is set in the same statement pair as \<open>server\<close>, and \<open>startedAt\<close> is a wall-clock
  value the pool never reads; the two are left out.
\<close>

record ServerInfo =
  hostname :: string
  port :: nat
  server :: "nat option"
  task :: nat

text \<open>
  The stage of a lifecycle task (the generator given to the inner \<open>scope.run\<close>): waiting
  for \<open>useExpressServerDaemon\<close>, parked in \<open>suspend()\<close>, or unwound and waiting, in the
  \<open>finally\<close> of \<open>useExpressServer\<close>, for the \<open>close\<close> event of its server.
\<close>

datatype stage = Starting | Running | Closing

text \<open>
  A backend's socket: \<open>app.listen\<close> called and not yet answered, listening, or
  \<open>server.close()\<close> called and the \<open>close\<close> event not yet delivered.
\<close>

datatype sock = Binding | Listening | Draining

text \<open>
  The closure of \<open>useServerPool\<close> together with the run-time objects it creates. The three
  JavaScript \<open>Map\<close>s are association lists in insertion order; \<open>basePort\<close> and
  \<open>nextPort\<close> are JavaScript numbers, taken to hold non-negative integers. Provisioning
  attempts are numbered from 0 and \<open>nextTask\<close> is the number of the next one. For an
  attempt, \<open>assigned\<close> is the port \<open>getOrCreate\<close> gave it, \<open>tasks\<close> its lifecycle task
  while that is alive in the pool's scope, \<open>spawns\<close> its outer task while that waits in
  \<open>doSpawnServer\<close> for \<open>readyPromise\<close>, \<open>sockets\<close> its server's socket, and \<open>settled\<close>
  the outcome of its spawn promise once settled. \<open>failing\<close> are the lifecycle tasks that
  were unwound by the failure of their watcher. \<open>events\<close> is every event passed to
  \<open>emitEvent\<close>, in order; \<open>eventsClosed\<close> is the number of events that had been sent when
  \<open>events.close\<close> ran, \<open>None\<close> while the signal is open; \<open>terminating\<close> says whether the
  pool's scope is being torn down.
\<close>

record pool =
  basePort :: nat
  maxServers :: nat
  servers :: "(string \<times> ServerInfo) list"
  serverTasks :: "(string \<times> nat) list"
  pendingCreations :: "(string \<times> nat) list"
  nextPort :: nat
  events :: "ServerEvent list"
  eventsClosed :: "nat option"
  nextTask :: nat
  assigned :: "(nat \<times> nat) list"
  tasks :: "(nat \<times> string \<times> stage) list"
  spawns :: "(nat \<times> string) list"
  sockets :: "(nat \<times> sock) list"
  settled :: "(nat \<times> (pool_error + ServerInfo)) list"
  failing :: "nat list"
  terminating :: bool

definition useServerPool :: "nat \<Rightarrow> nat option \<Rightarrow> pool" where
  "useServerPool base maxOpt =
     \<lparr>basePort = base,
      maxServers = (case maxOpt of None \<Rightarrow> 100 | Some m \<Rightarrow> m),
      servers = [], serverTasks = [], pendingCreations = [],
      nextPort = base, events = [], eventsClosed = None,
      nextTask = 0, assigned = [],
      tasks = [], spawns = [], sockets = [], settled = [], failing = [],
      terminating = False\<rparr>"

definition emitEvent :: "ServerEvent \<Rightarrow> pool \<Rightarrow> pool" where
  "emitEvent e s = s\<lparr>events := events s @ [e]\<rparr>"

text \<open>The events that a subscription open since the pool was created has received.\<close>

definition delivered :: "pool \<Rightarrow> ServerEvent list" where
  "delivered s = (case eventsClosed s of None \<Rightarrow> events s | Some n \<Rightarrow> take n (events s))"

text \<open>
  \<open>doSpawnServer\<close>, for attempt \<open>t\<close>, up to its \<open>yield* call(() => readyPromise)\<close>: the
  placeholder is stored, the lifecycle task is started (it calls \<open>app.listen\<close> and waits),
  and the task is recorded.
\<close>

definition doSpawnServer :: "string \<Rightarrow> nat \<Rightarrow> nat \<Rightarrow> pool \<Rightarrow> pool" where
  "doSpawnServer h p t s =
     s\<lparr>servers :=
         AList.update h \<lparr>hostname = h, port = p, server = None, task = t\<rparr> (servers s),
       tasks := AList.update t (h, Starting) (tasks s),
       sockets := AList.update t Binding (sockets s),
       serverTasks := AList.update h t (serverTasks s)\<rparr>"

text \<open>
  What a call of \<open>getOrCreate\<close> returns: the record of the fast path, the pending promise
  it found, the spawn promise it has just created, or a rejection. A call that provisions
  takes the port from \<open>nextPort++\<close> and starts the outer task with \<open>scope.run\<close>, which is
  entered in \<open>spawns\<close>.
\<close>

datatype reply =
    Resolved ServerInfo
  | Joined nat
  | Spawned nat
  | Rejected pool_error

definition getOrCreate :: "string \<Rightarrow> pool \<Rightarrow> reply \<times> pool" where
  "getOrCreate h s =
     (let existing = map_of (servers s) h
      in if (case existing of None \<Rightarrow> False | Some i \<Rightarrow> server i \<noteq> None)
         then (Resolved (the existing), s)
         else (case map_of (pendingCreations s) h of
                 Some pending \<Rightarrow> (Joined pending, s)
               | None \<Rightarrow>
                   if maxServers s \<le> length (servers s)
                   then (Rejected (CapacityExceeded (maxServers s)),
                         emitEvent (Error h (CapacityExceeded (maxServers s))) s)
                   else let p = nextPort s;
                            t = nextTask s;
                            s1 = doSpawnServer h p t
                                   (s\<lparr>nextPort := incr p,
                                      nextTask := t + 1,
                                      assigned := AList.update t p (assigned s),
                                      spawns := AList.update t h (spawns s)\<rparr>)
                        in (Spawned t,
                            s1\<lparr>pendingCreations := AList.update h t (pendingCreations s1)\<rparr>)))"

definition get :: "string \<Rightarrow> pool \<Rightarrow> ServerInfo option" where
  "get h s = map_of (servers s) h"

definition list_servers :: "pool \<Rightarrow> ServerInfo list" where
  "list_servers s = filter (\<lambda>i. server i \<noteq> None) (map snd (servers s))"

text \<open>
  The promise of a spawn settles: the outer task leaves \<open>doSpawnServer\<close>, and the
  \<open>finally\<close> of the \<open>getOrCreate\<close> call that awaited it deletes the pending entry.
\<close>

definition settle :: "nat \<Rightarrow> string \<Rightarrow> pool_error + ServerInfo \<Rightarrow> pool \<Rightarrow> pool" where
  "settle p h r s =
     s\<lparr>spawns := AList.delete p (spawns s),
       settled := AList.update p r (settled s),
       pendingCreations := AList.delete h (pendingCreations s)\<rparr>"

text \<open>The \<open>finally\<close> block of the lifecycle task.\<close>

definition cleanup :: "string \<Rightarrow> pool \<Rightarrow> pool" where
  "cleanup h s =
     (let s1 = emitEvent (Stopped h) s
      in s1\<lparr>servers := AList.delete h (servers s1),
            serverTasks := AList.delete h (serverTasks s1)\<rparr>)"

text \<open>
  The callback of \<open>app.listen\<close> for attempt \<open>t\<close>. If the lifecycle task still waits, its
  \<open>info\<close> object gets the handle, \<open>started\<close> is emitted and \<open>readyPromise\<close> resolves.
\<close>

definition server_listening :: "nat \<Rightarrow> pool \<Rightarrow> pool" where
  "server_listening t s =
     (if map_of (sockets s) t = Some Binding then
        (let s1 = s\<lparr>sockets := AList.update t Listening (sockets s)\<rparr>
         in case map_of (tasks s1) t of
              Some (h, Starting) \<Rightarrow>
                (case map_of (assigned s1) t of
                   Some p \<Rightarrow>
                     (let info = \<lparr>hostname = h, port = p, server = Some t, task = t\<rparr>;
                          s2 = s1\<lparr>servers :=
                                   AList.map_entry h
                                     (\<lambda>i. if task i = t then i\<lparr>server := Some t\<rparr> else i)
                                     (servers s1)\<rparr>;
                          s3 = emitEvent (Started h p) s2;
                          s4 = s3\<lparr>tasks := AList.update t (h, Running) (tasks s3)\<rparr>
                      in settle t h (Inr info) s4)
                 | None \<Rightarrow> s1)
            | _ \<Rightarrow> s1)
      else s)"

text \<open>
  Halting lifecycle task \<open>t\<close>: its generator is unwound, which runs the \<open>finally\<close> block;
  then its resources are torn down. A task that was listening calls \<open>server.close()\<close> and
  waits for the \<open>close\<close> event. A task halted while \<open>app.listen\<close> was outstanding has not
  entered the \<open>try\<close> of \<open>useExpressServer\<close>: it closes nothing and is gone at once, its
  \<open>readyPromise\<close> never settling and its server left to itself.
\<close>

definition halt :: "nat \<Rightarrow> pool \<Rightarrow> pool" where
  "halt t s =
     (case map_of (tasks s) t of
        Some (h, Starting) \<Rightarrow>
          (let s1 = cleanup h s in s1\<lparr>tasks := AList.delete t (tasks s1)\<rparr>)
      | Some (h, Running) \<Rightarrow>
          (let s1 = cleanup h s
           in s1\<lparr>tasks := AList.update t (h, Closing) (tasks s1),
                 sockets := AList.update t Draining (sockets s1)\<rparr>)
      | _ \<Rightarrow> s)"

text \<open>
  \<open>shutdown\<close>: the task it awaits (\<open>None\<close> when there is none and it returns at once), and
  the state after \<open>task.halt()\<close> has been called. The call returns when that task is gone.
\<close>

definition shutdown :: "string \<Rightarrow> pool \<Rightarrow> nat option \<times> pool" where
  "shutdown h s =
     (case map_of (serverTasks s) h of
        None \<Rightarrow> (None, s)
      | Some t \<Rightarrow> (Some t, halt t s))"


text \<open>
  The spawn promise of attempt \<open>p\<close> rejects with \<open>e\<close> if its outer task still waits for
  \<open>readyPromise\<close>, and the \<open>getOrCreate\<close> call that awaits it removes the pending entry.
  The outer task is halted (\<open>abort_spawn\<close>), or the rejection of \<open>readyPromise\<close> reaches it.
\<close>

definition reject_spawn :: "nat \<Rightarrow> pool_error \<Rightarrow> pool \<Rightarrow> pool" where
  "reject_spawn p e s =
     (case map_of (spawns s) p of
        None \<Rightarrow> s
      | Some k \<Rightarrow> settle p k (Inl e) s)"

definition abort_spawn :: "nat \<Rightarrow> pool \<Rightarrow> pool" where
  "abort_spawn p s =
     (case map_of (spawns s) p of
        None \<Rightarrow> s
      | Some k \<Rightarrow> settle p k (Inl Halted) s)"

text \<open>
  Tearing down the pool's scope visits its tasks newest first, one at a time. For attempt
  \<open>p\<close>: the lifecycle task is halted, and the teardown waits while it closes; after it the
  outer task, if it still waits, is halted.
\<close>

fun sweep :: "nat list \<Rightarrow> pool \<Rightarrow> pool" where
  "sweep [] s = s"
| "sweep (p # ps) s =
     (case map_of (tasks s) p of
        Some (h, Closing) \<Rightarrow> s
      | Some (h, Running) \<Rightarrow> halt p s
      | Some (h, Starting) \<Rightarrow> sweep ps (abort_spawn p (halt p s))
      | None \<Rightarrow> sweep ps (abort_spawn p s))"

definition teardown :: "pool \<Rightarrow> pool" where
  "teardown s = sweep (rev [0 ..< nextTask s]) s"

text \<open>
  The pool's scope ends, because the pool resource is halted or because one of its tasks
  has failed: the \<open>finally\<close> of the pool resource closes the event signal, then the scope
  is torn down. The returned operation completes when no task of the scope is left.
\<close>

definition terminate :: "pool \<Rightarrow> pool" where
  "terminate s =
     (if terminating s then s
      else teardown (s\<lparr>eventsClosed := Some (length (events s)), terminating := True\<rparr>))"

definition terminated :: "pool \<Rightarrow> bool" where
  "terminated s = (terminating s \<and> tasks s = [] \<and> spawns s = [])"

text \<open>
  The \<open>error\<close> event of a server that never came to listen: the resource throws into the
  lifecycle task, whose \<open>catch\<close> block emits \<open>error\<close> and rejects \<open>readyPromise\<close> and whose
  \<open>finally\<close> block runs; the task ends with the error, which takes the pool's scope down.
  The rejection of \<open>readyPromise\<close> is delivered after that, to an outer task that the
  teardown has not halted by then.
\<close>

definition listen_failed :: "nat \<Rightarrow> string \<Rightarrow> pool \<Rightarrow> pool" where
  "listen_failed t msg s =
     (if map_of (sockets s) t = Some Binding then
        (let s1 = s\<lparr>sockets := AList.delete t (sockets s)\<rparr>
         in case map_of (tasks s1) t of
              Some (h, Starting) \<Rightarrow>
                (let s2 = emitEvent (Error h (ProvisioningFailed msg)) s1;
                     s3 = cleanup h s2;
                     s4 = s3\<lparr>tasks := AList.delete t (tasks s3)\<rparr>
                 in reject_spawn t (ProvisioningFailed msg) (terminate s4))
            | _ \<Rightarrow> s1)
      else s)"

text \<open>
  A listening server closes without having been asked to: the daemon's watcher throws
  \<open>ServerDaemonError\<close>, which unwinds the lifecycle task; its \<open>finally\<close> block runs, its
  \<open>catch\<close> block does not. The task then closes its server as a halted one does and,
  once gone, has ended with the error.
\<close>

definition server_crashed :: "nat \<Rightarrow> pool \<Rightarrow> pool" where
  "server_crashed t s =
     (case map_of (tasks s) t of
        Some (h, Running) \<Rightarrow>
          if map_of (sockets s) t = Some Listening then
            (let s1 = s\<lparr>sockets := AList.delete t (sockets s)\<rparr>;
                 s2 = cleanup h s1
             in s2\<lparr>tasks := AList.update t (h, Closing) (tasks s2),
                   failing := t # failing s2\<rparr>)
          else s
      | _ \<Rightarrow> s)"

text \<open>
  The \<open>close\<close> event of a server whose task waits for it: the task is gone. A teardown of
  the pool's scope that waited for it goes on; a task that had failed takes the scope down.
\<close>

definition reap :: "nat \<Rightarrow> pool \<Rightarrow> pool" where
  "reap t s = s\<lparr>tasks := AList.delete t (tasks s), sockets := AList.delete t (sockets s)\<rparr>"

definition server_closed :: "nat \<Rightarrow> pool \<Rightarrow> pool" where
  "server_closed t s =
     (case map_of (tasks s) t of
        Some (h, Closing) \<Rightarrow>
          (let s1 = reap t s
           in if terminating s1 then teardown s1
              else if t \<in> set (failing s1) then terminate s1
              else s1)
      | _ \<Rightarrow> s)"

text \<open>
  One turn of the event loop: a call of the pool's interface or an event of a backend's
  server, run to the next point where every task and caller waits.
\<close>

datatype action =
    GetOrCreate string
  | Shutdown string
  | ServerListening nat
  | ListenFailed nat string
  | ServerCrashed nat
  | ServerClosed nat
  | Terminate

fun step :: "action \<Rightarrow> pool \<Rightarrow> pool" where
  "step (GetOrCreate h) s = snd (getOrCreate h s)"
| "step (Shutdown h) s = snd (shutdown h s)"
| "step (ServerListening t) s = server_listening t s"
| "step (ListenFailed t msg) s = listen_failed t msg s"
| "step (ServerCrashed t) s = server_crashed t s"
| "step (ServerClosed t) s = server_closed t s"
| "step Terminate s = terminate s"

definition run :: "action list \<Rightarrow> pool \<Rightarrow> pool" where
  "run acts s = fold step acts s"

text \<open>The ports that the calls of \<open>getOrCreate\<close> in a run assign, in order.\<close>

fun ports_assigned :: "action list \<Rightarrow> pool \<Rightarrow> nat list" where
  "ports_assigned [] s = []"
| "ports_assigned (a # as) s =
     (case a of
        GetOrCreate h \<Rightarrow>
          (case fst (getOrCreate h s) of
             Spawned t \<Rightarrow>
               (case map_of (assigned (snd (getOrCreate h s))) t of
                  Some p \<Rightarrow> [p]
                | None \<Rightarrow> [])
           | _ \<Rightarrow> [])
      | _ \<Rightarrow> [])
     @ ports_assigned as (step a s)"

section \<open>The switchboard's proxy handler (switchboard.ts)\<close>

text \<open>
  The response object as the handler uses it: whether its headers have gone out, its
  status, and the JSON body (\<open>error\<close>, \<open>message\<close>) when the switchboard wrote one.
\<close>

record response =
  headersSent :: bool
  statusCode :: nat
  body :: "(string \<times> string) option"

text \<open>
  What the forwarding collaborator (\<open>proxy.web\<close>) does with a request: it pipes the
  backend's answer into the response, or it calls the error callback with a message, the
  response being in the state the transfer left it in.
\<close>

datatype forward =
    ProxyOk response
  | ProxyError string response

text \<open>The callback given to \<open>proxy.web\<close>, for an error with message \<open>msg\<close>.\<close>

definition proxy_failed :: "string \<Rightarrow> string \<Rightarrow> response \<Rightarrow> response" where
  "proxy_failed h msg res =
     (if \<not> headersSent res
      then res\<lparr>headersSent := True, statusCode := 502,
               body := Some (''Bad Gateway'', ''Failed to proxy to '' @ h @ '': '' @ msg)\<rparr>
      else res)"

text \<open>
  The main proxy handler up to its first wait: the response it produced, the promise it
  awaits, or the error it hands to \<open>next\<close>.
\<close>

datatype handled =
    Responded response
  | Waiting nat
  | PassedOn pool_error

definition proxy_handler ::
  "request \<Rightarrow> string \<Rightarrow> forward \<Rightarrow> pool \<Rightarrow> handled \<times> pool" where
  "proxy_handler req defaultHostname fwd s =
     (let h = extractHostname req defaultHostname;
          r = getOrCreate h s
      in case fst r of
           Resolved serverInfo \<Rightarrow>
             (case fwd of
                ProxyOk res \<Rightarrow> (Responded res, snd r)
              | ProxyError msg res \<Rightarrow> (Responded (proxy_failed h msg res), snd r))
         | Joined p \<Rightarrow> (Waiting p, snd r)
         | Spawned p \<Rightarrow> (Waiting p, snd r)
         | Rejected e \<Rightarrow> (PassedOn e, snd r))"

section \<open>Invariants of the pool\<close>

text \<open>
  The invariant that every reachable state of the pool satisfies, stated on the lookup
  functions of the maps: the numbers of the lifecycle tasks lie below \<open>nextTask\<close>; a
  lifecycle task that is starting owns the pending entry of its key, the placeholder record
  (which carries the port assigned to the attempt) and a binding socket; a running task
  owns the ready record of its key; every record belongs to a task that has not been
  unwound; a key with a pending entry has no ready record; and an outer task that still
  waits owns the pending entry of its key.
\<close>

definition J ::
  "(nat \<Rightarrow> (string \<times> stage) option) \<Rightarrow> (string \<Rightarrow> ServerInfo option) \<Rightarrow> (string \<Rightarrow> nat option)
   \<Rightarrow> (nat \<Rightarrow> string option) \<Rightarrow> (nat \<Rightarrow> sock option) \<Rightarrow> (nat \<Rightarrow> nat option) \<Rightarrow> nat \<Rightarrow> bool" where
  "J T S P W K A n \<longleftrightarrow>
     (\<forall>p x. T p = Some x \<longrightarrow> p < n)
   \<and> (\<forall>p h. T p = Some (h, Starting) \<longrightarrow> P h = Some p)
   \<and> (\<forall>p h. T p = Some (h, Starting) \<longrightarrow>
         (\<exists>q. A p = Some q \<and> S h = Some \<lparr>hostname = h, port = q, server = None, task = p\<rparr>))
   \<and> (\<forall>p h. T p = Some (h, Starting) \<longrightarrow> K p = Some Binding)
   \<and> (\<forall>p h. T p = Some (h, Running) \<longrightarrow>
         (\<exists>q. A p = Some q \<and> S h = Some \<lparr>hostname = h, port = q, server = Some p, task = p\<rparr>))
   \<and> (\<forall>h i. S h = Some i \<longrightarrow> (\<exists>t g. T t = Some (h, g) \<and> g \<noteq> Closing))
   \<and> (\<forall>h p i. P h = Some p \<longrightarrow> S h = Some i \<longrightarrow> server i = None)
   \<and> (\<forall>p k. W p = Some k \<longrightarrow> P k = Some p)"

definition pool_inv :: "pool \<Rightarrow> bool" where
  "pool_inv s \<longleftrightarrow>
     J (map_of (tasks s)) (map_of (servers s)) (map_of (pendingCreations s))
       (map_of (spawns s)) (map_of (sockets s)) (map_of (assigned s)) (nextTask s)"

text \<open>
  When a call of \<open>getOrCreate\<close> provisions: no ready record, no pending entry, room left;
  and the state it leaves.
\<close>

definition creates :: "string \<Rightarrow> pool \<Rightarrow> bool" where
  "creates h s \<longleftrightarrow>
     (\<forall>i. map_of (servers s) h = Some i \<longrightarrow> server i = None)
     \<and> map_of (pendingCreations s) h = None
     \<and> length (servers s) < maxServers s"

definition created :: "string \<Rightarrow> pool \<Rightarrow> pool" where
  "created h s =
     s\<lparr>nextPort := incr (nextPort s),
       nextTask := nextTask s + 1,
       assigned := AList.update (nextTask s) (nextPort s) (assigned s),
       servers := AList.update h
         \<lparr>hostname = h, port = nextPort s, server = None, task = nextTask s\<rparr> (servers s),
       tasks := AList.update (nextTask s) (h, Starting) (tasks s),
       sockets := AList.update (nextTask s) Binding (sockets s),
       serverTasks := AList.update h (nextTask s) (serverTasks s),
       spawns := AList.update (nextTask s) h (spawns s),
       pendingCreations := AList.update h (nextTask s) (pendingCreations s)\<rparr>"

section \<open>Outcomes of calls\<close>

text \<open>
  What a caller that holds reply \<open>r\<close> has received in state \<open>s\<close>: a record or an error,
  or nothing yet while the promise it awaits is unsettled.
\<close>

fun outcome :: "reply \<Rightarrow> pool \<Rightarrow> (pool_error + ServerInfo) option" where
  "outcome (Resolved i) s = Some (Inr i)"
| "outcome (Rejected e) s = Some (Inl e)"
| "outcome (Joined p) s = map_of (settled s) p"
| "outcome (Spawned p) s = map_of (settled s) p"

definition pend_distinct :: "pool \<Rightarrow> bool" where
  "pend_distinct s = distinct (map fst (pendingCreations s))"

text \<open>The capacity invariant, for a cap \<open>c\<close>.\<close>

definition within_cap :: "nat \<Rightarrow> pool \<Rightarrow> bool" where
  "within_cap c s = (maxServers s = c \<and> length (servers s) \<le> c)"

section \<open>Further invariants\<close>




section \<open>The order of a key's lifecycle events\<close>

text \<open>
  Where a key stands after a sequence of events: no backend announced, a backend
  \<open>started\<close>, or an \<open>error\<close> of a teardown sent and the \<open>stopped\<close> that ends it due.
\<close>

datatype phase = Down | Up | Failed

text \<open>
  The event that may come next for key \<open>h\<close>, and where it leads; \<open>None\<close> when the event is
  out of order. Events of other keys and the \<open>error\<close> of a capacity rejection, which
  belongs to no backend, change nothing. \<open>started\<close> only follows \<open>stopped\<close> (or nothing);
  the \<open>error\<close> of a teardown is followed by nothing but \<open>stopped\<close>; \<open>stopped\<close> ends
  every teardown.
\<close>

fun follow :: "string \<Rightarrow> phase \<Rightarrow> ServerEvent \<Rightarrow> phase option" where
  "follow h ph (Started k p) =
     (if k \<noteq> h then Some ph else if ph = Down then Some Up else None)"
| "follow h ph (Stopped k) = (if k \<noteq> h then Some ph else Some Down)"
| "follow h ph (Error k (CapacityExceeded m)) = Some ph"
| "follow h ph (Error k e) =
     (if k \<noteq> h then Some ph else if ph = Failed then None else Some Failed)"

fun in_order :: "string \<Rightarrow> phase \<Rightarrow> ServerEvent list \<Rightarrow> phase option" where
  "in_order h ph [] = Some ph"
| "in_order h ph (e # es) =
     (case follow h ph e of None \<Rightarrow> None | Some ph' \<Rightarrow> in_order h ph' es)"

text \<open>
  The order of events agrees with the pool: the events sent so far are in order for key
  \<open>h\<close>, and they leave \<open>h\<close> started exactly when a lifecycle task of \<open>h\<close> is running.
\<close>

definition up :: "string \<Rightarrow> pool \<Rightarrow> bool" where
  "up h s \<longleftrightarrow> (\<exists>t. map_of (tasks s) t = Some (h, Running))"


section \<open>Key extraction: results\<close>

lemma first_split_on: "first (split_on c s) = Some (takeWhile (\<lambda>x. x \<noteq> c) s)"
  by (induction s) (auto simp: first_def split: list.splits)

text \<open>
  C6, as stated, fails: a request whose \<open>X-App-Name\<close> header is present with an empty value
  is routed to the default key, not to the header's (empty) value.
\<close>

theorem C6_empty_header_counterexample:
  "extractHostname \<lparr>host = Some ''localhost'', x_app_name = Some ''''\<rparr> ''default''
     \<noteq> routing_key_spec \<lparr>host = Some ''localhost'', x_app_name = Some ''''\<rparr> ''default''"
  by (simp add: extractHostname_def routing_key_spec_def strip_trailing_port_def
      is_digit_def truthy_def nullish_def first_def)

text \<open>
  C6, amended: the key is computed from the Host value cut at its first colon (empty when
  there is no Host header); if that contains a dot the key is the text before the first dot;
  otherwise an \<open>X-App-Name\<close> header that is present and not empty gives the key verbatim;
  otherwise the key is the configured default. The three examples of the specification hold.
\<close>

theorem C6_extractHostname_precedence:
  "extractHostname req d =
     (let h = takeWhile (\<lambda>c. c \<noteq> CHR '':'') (case host req of None \<Rightarrow> [] | Some v \<Rightarrow> v)
      in if CHR ''.'' \<in> set h then takeWhile (\<lambda>c. c \<noteq> CHR ''.'') h
         else (case x_app_name req of
                 None \<Rightarrow> d
               | Some v \<Rightarrow> if v = [] then d else v))
   \<and> extractHostname \<lparr>host = Some ''app-a.localhost:8000'', x_app_name = None\<rparr> ''default''
       = ''app-a''
   \<and> extractHostname \<lparr>host = Some ''localhost'', x_app_name = Some ''custom''\<rparr> ''default''
       = ''custom''
   \<and> extractHostname \<lparr>host = Some ''localhost'', x_app_name = None\<rparr> ''default''
       = ''default''"
proof -
  have general: "extractHostname r e =
     (let h = takeWhile (\<lambda>c. c \<noteq> CHR '':'') (case host r of None \<Rightarrow> [] | Some v \<Rightarrow> v)
      in if CHR ''.'' \<in> set h then takeWhile (\<lambda>c. c \<noteq> CHR ''.'') h
         else (case x_app_name r of
                 None \<Rightarrow> e
               | Some v \<Rightarrow> if v = [] then e else v))" for r e
    by (auto simp: extractHostname_def first_split_on truthy_def nullish_def Let_def
        split: option.splits)
  show ?thesis
    by (intro conjI, rule general) (simp_all add: general)
qed

section \<open>The invariant holds in every reachable state\<close>

lemma J_boundD: "J T S P W K A n \<Longrightarrow> T p = Some x \<Longrightarrow> p < n"
  unfolding J_def by blast

lemma J_startD:
  "J T S P W K A n \<Longrightarrow> T p = Some (h, Starting) \<Longrightarrow>
     P h = Some p
     \<and> (\<exists>q. A p = Some q \<and> S h = Some \<lparr>hostname = h, port = q, server = None, task = p\<rparr>)
     \<and> K p = Some Binding"
  unfolding J_def by blast

lemma J_runD:
  "J T S P W K A n \<Longrightarrow> T p = Some (h, Running) \<Longrightarrow>
     \<exists>q. A p = Some q \<and> S h = Some \<lparr>hostname = h, port = q, server = Some p, task = p\<rparr>"
  unfolding J_def by blast

lemma J_recD:
  "J T S P W K A n \<Longrightarrow> S h = Some i \<Longrightarrow> \<exists>t g. T t = Some (h, g) \<and> g \<noteq> Closing"
  unfolding J_def by blast

lemma J_pendD: "J T S P W K A n \<Longrightarrow> P h = Some p \<Longrightarrow> S h = Some i \<Longrightarrow> server i = None"
  unfolding J_def by blast

lemma J_spawnD: "J T S P W K A n \<Longrightarrow> W p = Some k \<Longrightarrow> P k = Some p"
  unfolding J_def by blast

lemma J_liveD:
  assumes "J T S P W K A n" and "T p = Some (h, g)" and "g \<noteq> Closing"
  shows "\<exists>i. S h = Some i \<and> task i = p \<and> (server i \<noteq> None \<longleftrightarrow> g = Running)"
proof (cases g)
  case Starting
  with J_startD [OF assms(1), of p h] assms(2) show ?thesis by auto
next
  case Running
  with J_runD [OF assms(1), of p h] assms(2) show ?thesis by auto
next
  case Closing
  with assms(3) show ?thesis by simp
qed

lemma J_uniq:
  assumes "J T S P W K A n" and "T p = Some (h, g)" and "g \<noteq> Closing"
    and "T p' = Some (h, g')" and "g' \<noteq> Closing"
  shows "p' = p"
  using J_liveD [OF assms(1,2,3)] J_liveD [OF assms(1,4,5)] by auto

lemma J_retire:
  assumes "J T S P W K A n" and "T t = Some (h, g)" and "g \<noteq> Closing"
    and "x = None \<or> x = Some (h, Closing)" and "\<forall>p. p \<noteq> t \<longrightarrow> K' p = K p"
  shows "J (T(t := x)) (S(h := None)) P W K' A n"
proof -
  have uniq: "T p = Some (h, g') \<Longrightarrow> g' \<noteq> Closing \<Longrightarrow> p = t" for p g'
    by (rule J_uniq [OF assms(1,2,3)])
  show ?thesis
    unfolding J_def
  proof (intro conjI allI impI)
    fix p x' assume "(T(t := x)) p = Some x'" then show "p < n"
      using J_boundD [OF assms(1), of p] assms(2,4) by (auto split: if_splits)
  next
    fix p k assume a: "(T(t := x)) p = Some (k, Starting)"
    then have b: "p \<noteq> t" "T p = Some (k, Starting)" using assms(4) by (auto split: if_splits)
    note sp = J_startD [OF assms(1) b(2)]
    from b uniq have kh: "k \<noteq> h" by auto
    show "P k = Some p" using sp by simp
    show "\<exists>q. A p = Some q
            \<and> (S(h := None)) k = Some \<lparr>hostname = k, port = q, server = None, task = p\<rparr>"
      using sp kh by simp
    show "K' p = Some Binding" using b sp assms(5) by simp
  next
    fix p k assume a: "(T(t := x)) p = Some (k, Running)"
    then have b: "p \<noteq> t" "T p = Some (k, Running)" using assms(4) by (auto split: if_splits)
    from b uniq have "k \<noteq> h" by auto
    then show "\<exists>q. A p = Some q
            \<and> (S(h := None)) k = Some \<lparr>hostname = k, port = q, server = Some p, task = p\<rparr>"
      using J_runD [OF assms(1) b(2)] by simp
  next
    fix k i assume a: "(S(h := None)) k = Some i"
    then have b: "k \<noteq> h" "S k = Some i" by (auto split: if_splits)
    then obtain t' g' where c: "T t' = Some (k, g')" "g' \<noteq> Closing"
      using J_recD [OF assms(1) b(2)] by blast
    with b assms(2) have "t' \<noteq> t" by auto
    with c show "\<exists>u g. (T(t := x)) u = Some (k, g) \<and> g \<noteq> Closing"
      by (intro exI [of _ t'] exI [of _ g']) simp
  next
    fix k p i assume "P k = Some p" "(S(h := None)) k = Some i"
    then show "server i = None"
      using J_pendD [OF assms(1), of k p i] by (auto split: if_splits)
  next
    fix p k assume "W p = Some k" then show "P k = Some p"
      by (rule J_spawnD [OF assms(1)])
  qed
qed

lemma J_created:
  assumes "J T S P W K A n" and "P h = None" and "\<forall>i. S h = Some i \<longrightarrow> server i = None"
  shows "J (T(n \<mapsto> (h, Starting)))
           (S(h \<mapsto> \<lparr>hostname = h, port = q, server = None, task = n\<rparr>))
           (P(h \<mapsto> n)) (W(n \<mapsto> h)) (K(n \<mapsto> Binding)) (A(n \<mapsto> q)) (Suc n)"
  unfolding J_def
proof (intro conjI allI impI)
  fix p x assume "(T(n \<mapsto> (h, Starting))) p = Some x"
  then show "p < Suc n"
    using J_boundD [OF assms(1), of p x] by (auto split: if_splits intro: less_SucI)
next
  fix p k assume a: "(T(n \<mapsto> (h, Starting))) p = Some (k, Starting)"
  show "(P(h \<mapsto> n)) k = Some p"
    using a J_startD [OF assms(1), of p k] assms(2) by (auto split: if_splits)
  show "\<exists>r. (A(n \<mapsto> q)) p = Some r
          \<and> (S(h \<mapsto> \<lparr>hostname = h, port = q, server = None, task = n\<rparr>)) k
              = Some \<lparr>hostname = k, port = r, server = None, task = p\<rparr>"
  proof (cases "p = n")
    case True
    with a show ?thesis by simp
  next
    case False
    with a have b: "T p = Some (k, Starting)" by simp
    from J_startD [OF assms(1) b] assms(2) have "k \<noteq> h" by auto
    then show ?thesis using False J_startD [OF assms(1) b] by simp
  qed
  show "(K(n \<mapsto> Binding)) p = Some Binding"
    using a J_startD [OF assms(1), of p k] by (auto split: if_splits)
next
  fix p k assume a: "(T(n \<mapsto> (h, Starting))) p = Some (k, Running)"
  then have b: "p \<noteq> n" "T p = Some (k, Running)" by (auto split: if_splits)
  from J_runD [OF assms(1) b(2)] assms(3) have "k \<noteq> h" by auto
  then show "\<exists>r. (A(n \<mapsto> q)) p = Some r
          \<and> (S(h \<mapsto> \<lparr>hostname = h, port = q, server = None, task = n\<rparr>)) k
              = Some \<lparr>hostname = k, port = r, server = Some p, task = p\<rparr>"
    using b J_runD [OF assms(1) b(2)] by simp
next
  fix k i assume a: "(S(h \<mapsto> \<lparr>hostname = h, port = q, server = None, task = n\<rparr>)) k = Some i"
  show "\<exists>t g. (T(n \<mapsto> (h, Starting))) t = Some (k, g) \<and> g \<noteq> Closing"
  proof (cases "k = h")
    case True
    then show ?thesis by (intro exI [of _ n] exI [of _ Starting]) simp
  next
    case False
    with a have "S k = Some i" by simp
    then obtain t' g' where c: "T t' = Some (k, g')" "g' \<noteq> Closing"
      using J_recD [OF assms(1)] by blast
    then have "t' \<noteq> n" using J_boundD [OF assms(1), of t'] by auto
    with c show ?thesis by (intro exI [of _ t'] exI [of _ g']) simp
  qed
next
  fix k p i
  assume "(P(h \<mapsto> n)) k = Some p"
    and "(S(h \<mapsto> \<lparr>hostname = h, port = q, server = None, task = n\<rparr>)) k = Some i"
  then show "server i = None"
    using J_pendD [OF assms(1), of k p i] by (auto split: if_splits)
next
  fix p k assume "(W(n \<mapsto> h)) p = Some k"
  then show "(P(h \<mapsto> n)) k = Some p"
    using J_spawnD [OF assms(1), of p k] assms(2) by (auto split: if_splits)
qed

lemma J_listening:
  assumes "J T S P W K A n" and "T t = Some (h, Starting)" and "A t = Some q"
  shows "J (T(t \<mapsto> (h, Running)))
           (S(h \<mapsto> \<lparr>hostname = h, port = q, server = Some t, task = t\<rparr>))
           (P(h := None)) (W(t := None)) (K(t \<mapsto> Listening)) A n"
proof -
  note st = J_startD [OF assms(1,2)]
  have uniq: "T p = Some (h, g') \<Longrightarrow> g' \<noteq> Closing \<Longrightarrow> p = t" for p g'
    by (rule J_uniq [OF assms(1,2)]) simp
  show ?thesis
    unfolding J_def
  proof (intro conjI allI impI)
    fix p x assume "(T(t \<mapsto> (h, Running))) p = Some x"
    then show "p < n"
      using J_boundD [OF assms(1), of p] J_boundD [OF assms(1,2)] by (auto split: if_splits)
  next
    fix p k assume a: "(T(t \<mapsto> (h, Running))) p = Some (k, Starting)"
    then have b: "p \<noteq> t" "T p = Some (k, Starting)" by (auto split: if_splits)
    note sp = J_startD [OF assms(1) b(2)]
    from b uniq have kh: "k \<noteq> h" by auto
    show "(P(h := None)) k = Some p" using kh sp by simp
    show "\<exists>r. A p = Some r
            \<and> (S(h \<mapsto> \<lparr>hostname = h, port = q, server = Some t, task = t\<rparr>)) k
                = Some \<lparr>hostname = k, port = r, server = None, task = p\<rparr>" using kh sp by simp
    show "(K(t \<mapsto> Listening)) p = Some Binding" using b sp by simp
  next
    fix p k assume a: "(T(t \<mapsto> (h, Running))) p = Some (k, Running)"
    show "\<exists>r. A p = Some r
            \<and> (S(h \<mapsto> \<lparr>hostname = h, port = q, server = Some t, task = t\<rparr>)) k
                = Some \<lparr>hostname = k, port = r, server = Some p, task = p\<rparr>"
    proof (cases "p = t")
      case True with a assms(3) show ?thesis by simp
    next
      case False
      with a have b: "T p = Some (k, Running)" by simp
      from b uniq False have "k \<noteq> h" by auto
      then show ?thesis using J_runD [OF assms(1) b] by simp
    qed
  next
    fix k i
    assume a: "(S(h \<mapsto> \<lparr>hostname = h, port = q, server = Some t, task = t\<rparr>)) k = Some i"
    show "\<exists>t' g. (T(t \<mapsto> (h, Running))) t' = Some (k, g) \<and> g \<noteq> Closing"
    proof (cases "k = h")
      case True
      then show ?thesis by (intro exI [of _ t] exI [of _ Running]) simp
    next
      case False
      with a have "S k = Some i" by simp
      then obtain t' g' where c: "T t' = Some (k, g')" "g' \<noteq> Closing"
        using J_recD [OF assms(1)] by blast
      with False assms(2) have "t' \<noteq> t" by auto
      with c show ?thesis by (intro exI [of _ t'] exI [of _ g']) simp
    qed
  next
    fix k p i
    assume "(P(h := None)) k = Some p"
      and "(S(h \<mapsto> \<lparr>hostname = h, port = q, server = Some t, task = t\<rparr>)) k = Some i"
    then show "server i = None"
      using J_pendD [OF assms(1), of k p i] by (auto split: if_splits)
  next
    fix p k assume a: "(W(t := None)) p = Some k"
    then have b: "p \<noteq> t" "W p = Some k" by (auto split: if_splits)
    from J_spawnD [OF assms(1) b(2)] st b have "k \<noteq> h" by auto
    then show "(P(h := None)) k = Some p" using J_spawnD [OF assms(1) b(2)] by simp
  qed
qed

lemma J_settle:
  assumes "J T S P W K A n" and "\<forall>q. T q \<noteq> Some (h, Starting)"
    and "\<forall>q. W q = Some h \<longrightarrow> q = p"
  shows "J T S (P(h := None)) (W(p := None)) K A n"
  unfolding J_def
proof (intro conjI allI impI)
  fix q x assume "T q = Some x" then show "q < n" by (rule J_boundD [OF assms(1)])
next
  fix q k assume a: "T q = Some (k, Starting)"
  with assms(2) have "k \<noteq> h" by auto
  then show "(P(h := None)) k = Some q" using J_startD [OF assms(1) a] by simp
  show "\<exists>r. A q = Some r \<and> S k = Some \<lparr>hostname = k, port = r, server = None, task = q\<rparr>"
    using J_startD [OF assms(1) a] by simp
  show "K q = Some Binding" using J_startD [OF assms(1) a] by simp
next
  fix q k assume "T q = Some (k, Running)"
  then show "\<exists>r. A q = Some r \<and> S k = Some \<lparr>hostname = k, port = r, server = Some q, task = q\<rparr>"
    by (rule J_runD [OF assms(1)])
next
  fix k i assume "S k = Some i"
  then show "\<exists>t g. T t = Some (k, g) \<and> g \<noteq> Closing" by (rule J_recD [OF assms(1)])
next
  fix k q i assume "(P(h := None)) k = Some q" and "S k = Some i"
  then show "server i = None" using J_pendD [OF assms(1), of k q i] by (auto split: if_splits)
next
  fix q k assume a: "(W(p := None)) q = Some k"
  then have b: "q \<noteq> p" "W q = Some k" by (auto split: if_splits)
  with assms(3) have "k \<noteq> h" by auto
  then show "(P(h := None)) k = Some q" using J_spawnD [OF assms(1) b(2)] by simp
qed

lemma J_abort:
  assumes "J T S P W K A n" and "W p = Some k" and "\<forall>h. T p \<noteq> Some (h, Starting)"
  shows "J T S (P(k := None)) (W(p := None)) K A n"
proof (rule J_settle [OF assms(1)])
  note pk = J_spawnD [OF assms(1,2)]
  show "\<forall>q. T q \<noteq> Some (k, Starting)"
  proof (intro allI notI)
    fix q assume a: "T q = Some (k, Starting)"
    from J_startD [OF assms(1) a] pk have "q = p" by simp
    with a assms(3) show False by simp
  qed
  show "\<forall>q. W q = Some k \<longrightarrow> q = p"
    using J_spawnD [OF assms(1)] pk by fastforce
qed

lemma J_frame:
  assumes "J T S P W K A n" and "\<forall>q h. T q = Some (h, Starting) \<longrightarrow> K' q = K q"
    and "\<forall>q. T' q = T q \<or> (\<exists>h. T q = Some (h, Closing) \<and> T' q = None)"
  shows "J T' S P W K' A n"
  unfolding J_def
proof (intro conjI allI impI)
  fix q x assume "T' q = Some x"
  with assms(3) have "T q = Some x" by (metis option.distinct(1))
  then show "q < n" by (rule J_boundD [OF assms(1)])
next
  fix q k assume "T' q = Some (k, Starting)"
  with assms(3) have a: "T q = Some (k, Starting)" by (metis option.distinct(1))
  show "P k = Some q" using J_startD [OF assms(1) a] by simp
  show "\<exists>r. A q = Some r \<and> S k = Some \<lparr>hostname = k, port = r, server = None, task = q\<rparr>"
    using J_startD [OF assms(1) a] by simp
  show "K' q = Some Binding" using J_startD [OF assms(1) a] assms(2) a by simp
next
  fix q k assume "T' q = Some (k, Running)"
  with assms(3) have a: "T q = Some (k, Running)" by (metis option.distinct(1))
  then show "\<exists>r. A q = Some r \<and> S k = Some \<lparr>hostname = k, port = r, server = Some q, task = q\<rparr>"
    by (rule J_runD [OF assms(1)])
next
  fix k i assume "S k = Some i"
  then obtain t g where c: "T t = Some (k, g)" "g \<noteq> Closing"
    using J_recD [OF assms(1)] by blast
  with assms(3) have "T' t = Some (k, g)"
    by (metis option.inject prod.inject)
  with c show "\<exists>t g. T' t = Some (k, g) \<and> g \<noteq> Closing" by blast
next
  fix k q i assume "P k = Some q" and "S k = Some i"
  then show "server i = None" by (rule J_pendD [OF assms(1)])
next
  fix q k assume "W q = Some k" then show "P k = Some q" by (rule J_spawnD [OF assms(1)])
qed

lemmas al = AList.update_conv' AList.delete_conv' AList.map_of_map_entry

lemma getOrCreate_creates:
  "creates h s \<Longrightarrow> getOrCreate h s = (Spawned (nextTask s), created h s)"
  by (auto simp: creates_def getOrCreate_def created_def doSpawnServer_def Let_def
      split: option.splits)

lemma getOrCreate_not_creates:
  "\<not> creates h s \<Longrightarrow>
     snd (getOrCreate h s) = s
   \<or> snd (getOrCreate h s) = emitEvent (Error h (CapacityExceeded (maxServers s))) s"
  by (auto simp: creates_def getOrCreate_def Let_def split: option.splits)

lemma invI:
  assumes "J T S P W K A n"
    and "map_of (tasks s') = T" and "map_of (servers s') = S"
    and "map_of (pendingCreations s') = P" and "map_of (spawns s') = W"
    and "map_of (sockets s') = K" and "map_of (assigned s') = A" and "nextTask s' = n"
  shows "pool_inv s'"
  using assms by (simp add: pool_inv_def)

lemma inv_init: "pool_inv (useServerPool b m)"
  by (simp add: pool_inv_def J_def useServerPool_def)

lemma inv_emit_error: "pool_inv s \<Longrightarrow> pool_inv (emitEvent (Error h e) s)"
  by (simp add: pool_inv_def emitEvent_def)

lemma inv_created:
  assumes "pool_inv s" and "creates h s"
  shows "pool_inv (created h s)"
  by (rule invI [OF J_created [OF assms(1) [unfolded pool_inv_def],
          where h = h and q = "nextPort s"]])
     (use assms(2) in \<open>simp_all add: created_def creates_def al\<close>)

lemma inv_getOrCreate: "pool_inv s \<Longrightarrow> pool_inv (snd (getOrCreate h s))"
  using getOrCreate_creates [of h s] getOrCreate_not_creates [of h s]
    inv_created [of s h] inv_emit_error [of s h]
  by (cases "creates h s") auto

lemma listening_start:
  assumes "map_of (sockets s) p = Some Binding" and "map_of (tasks s) p = Some (h, Starting)"
    and "map_of (assigned s) p = Some q"
  shows "server_listening p s =
     s\<lparr>sockets := AList.update p Listening (sockets s),
       servers := AList.map_entry h (\<lambda>i. if task i = p then i\<lparr>server := Some p\<rparr> else i) (servers s),
       events := events s @ [Started h q],
       tasks := AList.update p (h, Running) (tasks s),
       spawns := AList.delete p (spawns s),
       settled := AList.update p
                    (Inr \<lparr>hostname = h, port = q, server = Some p, task = p\<rparr>) (settled s),
       pendingCreations := AList.delete h (pendingCreations s)\<rparr>"
  using assms by (simp add: server_listening_def settle_def emitEvent_def Let_def)

lemma listening_other:
  assumes "map_of (sockets s) p = Some Binding" and "\<forall>h. map_of (tasks s) p \<noteq> Some (h, Starting)"
  shows "server_listening p s = s\<lparr>sockets := AList.update p Listening (sockets s)\<rparr>"
  using assms by (auto simp: server_listening_def Let_def split: option.splits stage.splits)

lemma listening_idle:
  "map_of (sockets s) p \<noteq> Some Binding \<Longrightarrow> server_listening p s = s"
  by (simp add: server_listening_def)

lemma inv_listening:
  assumes "pool_inv s"
  shows "pool_inv (server_listening p s)"
proof (cases "map_of (sockets s) p = Some Binding")
  case False
  then show ?thesis using assms by (simp add: listening_idle)
next
  case bind: True
  show ?thesis
  proof (cases "\<exists>h. map_of (tasks s) p = Some (h, Starting)")
    case True
    then obtain h where t: "map_of (tasks s) p = Some (h, Starting)" by blast
    from J_startD [OF assms [unfolded pool_inv_def] t] obtain q
      where q: "map_of (assigned s) p = Some q"
        and r: "map_of (servers s) h = Some \<lparr>hostname = h, port = q, server = None, task = p\<rparr>"
      by blast
    show ?thesis
      by (rule invI [OF J_listening [OF assms [unfolded pool_inv_def] t q]])
         (use r in \<open>simp_all add: listening_start [OF bind t q] al\<close>)
  next
    case False
    then have n: "\<forall>h. map_of (tasks s) p \<noteq> Some (h, Starting)" by blast
    show ?thesis
    proof (rule invI [OF J_frame [OF assms [unfolded pool_inv_def], where K' = "(map_of (sockets s))(p \<mapsto> Listening)" and T' = "map_of (tasks s)"]])
      show "\<forall>q h. map_of (tasks s) q = Some (h, Starting) \<longrightarrow>
              ((map_of (sockets s))(p \<mapsto> Listening)) q = map_of (sockets s) q"
        using n by auto
    qed (simp_all add: listening_other [OF bind n] al)
  qed
qed

lemma halt_starting:
  "map_of (tasks s) t = Some (h, Starting) \<Longrightarrow>
   halt t s = s\<lparr>events := events s @ [Stopped h],
                servers := AList.delete h (servers s),
                serverTasks := AList.delete h (serverTasks s),
                tasks := AList.delete t (tasks s)\<rparr>"
  by (simp add: halt_def cleanup_def emitEvent_def Let_def)

lemma halt_running:
  "map_of (tasks s) t = Some (h, Running) \<Longrightarrow>
   halt t s = s\<lparr>events := events s @ [Stopped h],
                servers := AList.delete h (servers s),
                serverTasks := AList.delete h (serverTasks s),
                tasks := AList.update t (h, Closing) (tasks s),
                sockets := AList.update t Draining (sockets s)\<rparr>"
  by (simp add: halt_def cleanup_def emitEvent_def Let_def)

lemma halt_idle:
  "\<forall>h. map_of (tasks s) t \<noteq> Some (h, Starting) \<and> map_of (tasks s) t \<noteq> Some (h, Running)
   \<Longrightarrow> halt t s = s"
  by (auto simp: halt_def split: option.splits stage.splits)

lemma stage_cases:
  obtains (starting) h where "map_of (tasks s) t = Some (h, Starting)"
  | (running) h where "map_of (tasks s) t = Some (h, Running)"
  | (idle) "\<forall>h. map_of (tasks s) t \<noteq> Some (h, Starting) \<and> map_of (tasks s) t \<noteq> Some (h, Running)"
  by blast

lemma inv_halt:
  assumes "pool_inv s"
  shows "pool_inv (halt t s)"
proof (cases s t rule: stage_cases)
  case (starting h)
  show ?thesis
    by (rule invI [OF J_retire [OF assms [unfolded pool_inv_def] starting, of None "map_of (sockets s)"]])
       (simp_all add: halt_starting [OF starting] al)
next
  case (running h)
  show ?thesis
    by (rule invI [OF J_retire [OF assms [unfolded pool_inv_def] running, of "Some (h, Closing)"
            "(map_of (sockets s))(t \<mapsto> Draining)"]])
       (simp_all add: halt_running [OF running] al)
next
  case idle
  then show ?thesis using assms by (simp add: halt_idle)
qed

lemma crashed_running:
  "map_of (tasks s) t = Some (h, Running) \<Longrightarrow> map_of (sockets s) t = Some Listening \<Longrightarrow>
   server_crashed t s =
     s\<lparr>sockets := AList.delete t (sockets s),
       events := events s @ [Stopped h],
       servers := AList.delete h (servers s),
       serverTasks := AList.delete h (serverTasks s),
       tasks := AList.update t (h, Closing) (tasks s),
       failing := t # failing s\<rparr>"
  by (simp add: server_crashed_def cleanup_def emitEvent_def Let_def)

lemma crashed_idle:
  "(\<forall>h. map_of (tasks s) t \<noteq> Some (h, Running)) \<or> map_of (sockets s) t \<noteq> Some Listening
   \<Longrightarrow> server_crashed t s = s"
  by (auto simp: server_crashed_def split: option.splits stage.splits)

lemma inv_crashed:
  assumes "pool_inv s"
  shows "pool_inv (server_crashed t s)"
proof (cases "\<exists>h. map_of (tasks s) t = Some (h, Running) \<and> map_of (sockets s) t = Some Listening")
  case True
  then obtain h where r: "map_of (tasks s) t = Some (h, Running)"
    and l: "map_of (sockets s) t = Some Listening" by blast
  show ?thesis
    by (rule invI [OF J_retire [OF assms [unfolded pool_inv_def] r, of "Some (h, Closing)"
            "(map_of (sockets s))(t := None)"]])
       (simp_all add: crashed_running [OF r l] al)
next
  case False
  then have "server_crashed t s = s" by (intro crashed_idle) blast
  then show ?thesis using assms by simp
qed

lemma inv_reject_spawn:
  assumes "pool_inv s" and "\<forall>h. map_of (tasks s) p \<noteq> Some (h, Starting)"
  shows "pool_inv (reject_spawn p e s)"
proof (cases "map_of (spawns s) p")
  case None
  then show ?thesis using assms by (simp add: reject_spawn_def)
next
  case (Some k)
  show ?thesis
    by (rule invI [OF J_abort [OF assms(1) [unfolded pool_inv_def] Some assms(2)]])
       (simp_all add: reject_spawn_def Some settle_def al)
qed

lemma abort_spawn_reject: "abort_spawn p s = reject_spawn p Halted s"
  by (simp add: abort_spawn_def reject_spawn_def)

lemma inv_abort_spawn:
  assumes "pool_inv s" and "\<forall>h. map_of (tasks s) p \<noteq> Some (h, Starting)"
  shows "pool_inv (abort_spawn p s)"
  unfolding abort_spawn_reject by (rule inv_reject_spawn [OF assms])

lemma inv_reap:
  assumes "pool_inv s" and "map_of (tasks s) t = Some (h, Closing)"
  shows "pool_inv (reap t s)"
proof (rule invI [OF J_frame [OF assms(1) [unfolded pool_inv_def],
        where K' = "(map_of (sockets s))(t := None)" and T' = "(map_of (tasks s))(t := None)"]])
  show "\<forall>q k. map_of (tasks s) q = Some (k, Starting) \<longrightarrow>
          ((map_of (sockets s))(t := None)) q = map_of (sockets s) q"
    using assms(2) by auto
  show "\<forall>q. ((map_of (tasks s))(t := None)) q = map_of (tasks s) q
          \<or> (\<exists>h. map_of (tasks s) q = Some (h, Closing) \<and> ((map_of (tasks s))(t := None)) q = None)"
    using assms(2) by auto
qed (simp_all add: reap_def al)

lemma halt_not_starting:
  "map_of (tasks s) p = Some (h, Starting) \<Longrightarrow> map_of (tasks (halt p s)) p = None"
  by (simp add: halt_starting al)

lemma inv_sweep: "pool_inv s \<Longrightarrow> pool_inv (sweep ps s)"
proof (induction ps arbitrary: s)
  case Nil
  then show ?case by simp
next
  case (Cons p ps)
  show ?case
  proof (cases "map_of (tasks s) p")
    case None
    then have "pool_inv (abort_spawn p s)" using Cons.prems by (intro inv_abort_spawn) auto
    then show ?thesis using None Cons.IH by simp
  next
    case (Some x)
    obtain h g where x: "x = (h, g)" by (cases x)
    show ?thesis
    proof (cases g)
      case Starting
      have "pool_inv (abort_spawn p (halt p s))"
        using Some x Starting Cons.prems
        by (intro inv_abort_spawn inv_halt) (simp_all add: halt_not_starting)
      then show ?thesis using Some x Starting Cons.IH by simp
    next
      case Running
      then show ?thesis using Some x Cons.prems by (simp add: inv_halt)
    next
      case Closing
      then show ?thesis using Some x Cons.prems by simp
    qed
  qed
qed

lemma inv_flags: "pool_inv s \<Longrightarrow> pool_inv (s\<lparr>eventsClosed := a, terminating := b\<rparr>)"
  by (simp add: pool_inv_def)

lemma inv_teardown: "pool_inv s \<Longrightarrow> pool_inv (teardown s)"
  by (simp add: teardown_def inv_sweep)

lemma inv_terminate: "pool_inv s \<Longrightarrow> pool_inv (terminate s)"
  by (simp add: terminate_def inv_teardown inv_flags)

lemma gone_halt: "map_of (tasks s) p = None \<Longrightarrow> map_of (tasks (halt t s)) p = None"
  by (cases s t rule: stage_cases) (auto simp: halt_starting halt_running halt_idle al)

lemma gone_abort [simp]: "tasks (abort_spawn p s) = tasks s"
  by (simp add: abort_spawn_def settle_def split: option.splits)

lemma gone_sweep: "map_of (tasks s) p = None \<Longrightarrow> map_of (tasks (sweep ps s)) p = None"
proof (induction ps arbitrary: s)
  case Nil
  then show ?case by simp
next
  case (Cons q ps)
  note h = gone_halt [OF Cons.prems, of q]
  show ?case
    using Cons.prems h Cons.IH [of "abort_spawn q s"] Cons.IH [of "abort_spawn q (halt q s)"]
    by (simp split: option.splits stage.splits)
qed

lemma gone_terminate: "map_of (tasks s) p = None \<Longrightarrow> map_of (tasks (terminate s)) p = None"
  by (simp add: terminate_def teardown_def gone_sweep)

lemma failed_starting:
  "map_of (sockets s) p = Some Binding \<Longrightarrow> map_of (tasks s) p = Some (h, Starting) \<Longrightarrow>
   listen_failed p msg s =
     reject_spawn p (ProvisioningFailed msg)
       (terminate
          (s\<lparr>sockets := AList.delete p (sockets s),
             events := events s @ [Error h (ProvisioningFailed msg), Stopped h],
             servers := AList.delete h (servers s),
             serverTasks := AList.delete h (serverTasks s),
             tasks := AList.delete p (tasks s)\<rparr>))"
  by (simp add: listen_failed_def cleanup_def emitEvent_def Let_def)

lemma failed_other:
  "map_of (sockets s) p = Some Binding \<Longrightarrow> \<forall>h. map_of (tasks s) p \<noteq> Some (h, Starting) \<Longrightarrow>
   listen_failed p msg s = s\<lparr>sockets := AList.delete p (sockets s)\<rparr>"
  by (auto simp: listen_failed_def Let_def split: option.splits stage.splits)

lemma failed_idle:
  "map_of (sockets s) p \<noteq> Some Binding \<Longrightarrow> listen_failed p msg s = s"
  by (simp add: listen_failed_def)

lemma inv_failed_local:
  assumes "pool_inv s" and "map_of (tasks s) p = Some (h, Starting)"
  shows "pool_inv (s\<lparr>sockets := AList.delete p (sockets s),
                     events := events s @ evs,
                     servers := AList.delete h (servers s),
                     serverTasks := AList.delete h (serverTasks s),
                     tasks := AList.delete p (tasks s)\<rparr>)"
  by (rule invI [OF J_retire [OF assms(1) [unfolded pool_inv_def] assms(2), of None
          "(map_of (sockets s))(p := None)"]])
     (simp_all add: al)

lemma inv_listen_failed:
  assumes "pool_inv s"
  shows "pool_inv (listen_failed p msg s)"
proof (cases "map_of (sockets s) p = Some Binding")
  case False
  then show ?thesis using assms by (simp add: failed_idle)
next
  case bind: True
  note Js = assms [unfolded pool_inv_def]
  show ?thesis
  proof (cases "\<exists>h. map_of (tasks s) p = Some (h, Starting)")
    case True
    then obtain h where t: "map_of (tasks s) p = Some (h, Starting)" by blast
    let ?s4 = "s\<lparr>sockets := AList.delete p (sockets s),
                 events := events s @ [Error h (ProvisioningFailed msg), Stopped h],
                 servers := AList.delete h (servers s),
                 serverTasks := AList.delete h (serverTasks s),
                 tasks := AList.delete p (tasks s)\<rparr>"
    have i4: "pool_inv ?s4" by (rule inv_failed_local [OF assms t])
    have g4: "map_of (tasks ?s4) p = None" by (simp add: al)
    have "pool_inv (reject_spawn p (ProvisioningFailed msg) (terminate ?s4))"
      using gone_terminate [OF g4] by (intro inv_reject_spawn inv_terminate i4) simp
    then show ?thesis by (simp add: failed_starting [OF bind t])
  next
    case False
    then have n: "\<forall>h. map_of (tasks s) p \<noteq> Some (h, Starting)" by blast
    show ?thesis
    proof (rule invI [OF J_frame [OF Js, where K' = "(map_of (sockets s))(p := None)"
            and T' = "map_of (tasks s)"]])
      show "\<forall>q h. map_of (tasks s) q = Some (h, Starting) \<longrightarrow>
              ((map_of (sockets s))(p := None)) q = map_of (sockets s) q"
        using n by auto
    qed (simp_all add: failed_other [OF bind n] al)
  qed
qed

lemma inv_server_closed: "pool_inv s \<Longrightarrow> pool_inv (server_closed t s)"
  by (auto simp: server_closed_def Let_def inv_teardown inv_terminate inv_reap
      split: option.splits stage.splits)

lemma inv_shutdown: "pool_inv s \<Longrightarrow> pool_inv (snd (shutdown h s))"
  by (simp add: shutdown_def inv_halt split: option.splits)

lemma inv_step: "pool_inv s \<Longrightarrow> pool_inv (step a s)"
  by (cases a)
     (simp_all add: inv_getOrCreate inv_shutdown inv_listening inv_listen_failed inv_crashed
        inv_server_closed inv_terminate)

lemma run_snoc: "run (acts @ [a]) s = step a (run acts s)"
  by (simp add: run_def)

lemma inv_run: "pool_inv (run acts (useServerPool b m))"
  by (induction acts rule: rev_induct) (simp_all add: run_snoc inv_step inv_init, simp add: run_def inv_init)

section \<open>Preservation by every step\<close>

text \<open>
  A property of pool states holds after any step if each elementary change that steps are
  made of preserves it: a provisioning, the \<open>error\<close> of a capacity rejection, the unwinding
  of a starting or a running lifecycle task, the rejection of a spawn promise, a server
  coming to listen, a failed start, a crash, the end of a closing task, and the closing of
  the event signal.
\<close>

lemma halt_induct:
  assumes "P s"
    and hs: "\<And>s t h. P s \<Longrightarrow> map_of (tasks s) t = Some (h, Starting) \<Longrightarrow>
          P (s\<lparr>events := events s @ [Stopped h],
                servers := AList.delete h (servers s),
                serverTasks := AList.delete h (serverTasks s),
                tasks := AList.delete t (tasks s)\<rparr>)"
    and hr: "\<And>s t h. P s \<Longrightarrow> map_of (tasks s) t = Some (h, Running) \<Longrightarrow>
          P (s\<lparr>events := events s @ [Stopped h],
                servers := AList.delete h (servers s),
                serverTasks := AList.delete h (serverTasks s),
                tasks := AList.update t (h, Closing) (tasks s),
                sockets := AList.update t Draining (sockets s)\<rparr>)"
  shows "P (halt t s)"
proof (cases s t rule: stage_cases)
  case (starting h)
  then show ?thesis using hs [OF assms(1)] by (simp add: halt_starting)
next
  case (running h)
  then show ?thesis using hr [OF assms(1)] by (simp add: halt_running)
next
  case idle
  then show ?thesis using assms(1) by (simp add: halt_idle)
qed

lemma reject_induct:
  assumes "P s" and "\<forall>h. map_of (tasks s) p \<noteq> Some (h, Starting)"
    and rj: "\<And>s p k e. P s \<Longrightarrow> map_of (spawns s) p = Some k \<Longrightarrow>
          \<forall>h. map_of (tasks s) p \<noteq> Some (h, Starting) \<Longrightarrow>
          P (s\<lparr>spawns := AList.delete p (spawns s),
                settled := AList.update p (Inl e) (settled s),
                pendingCreations := AList.delete k (pendingCreations s)\<rparr>)"
  shows "P (reject_spawn p e s)"
proof (cases "map_of (spawns s) p")
  case None
  then show ?thesis using assms(1) by (simp add: reject_spawn_def)
next
  case (Some k)
  then show ?thesis using rj [OF assms(1) Some assms(2)] by (simp add: reject_spawn_def settle_def)
qed

lemma sweep_induct:
  assumes "P s"
    and hs: "\<And>s t h. P s \<Longrightarrow> map_of (tasks s) t = Some (h, Starting) \<Longrightarrow>
          P (s\<lparr>events := events s @ [Stopped h],
                servers := AList.delete h (servers s),
                serverTasks := AList.delete h (serverTasks s),
                tasks := AList.delete t (tasks s)\<rparr>)"
    and hr: "\<And>s t h. P s \<Longrightarrow> map_of (tasks s) t = Some (h, Running) \<Longrightarrow>
          P (s\<lparr>events := events s @ [Stopped h],
                servers := AList.delete h (servers s),
                serverTasks := AList.delete h (serverTasks s),
                tasks := AList.update t (h, Closing) (tasks s),
                sockets := AList.update t Draining (sockets s)\<rparr>)"
    and rj: "\<And>s p k e. P s \<Longrightarrow> map_of (spawns s) p = Some k \<Longrightarrow>
          \<forall>h. map_of (tasks s) p \<noteq> Some (h, Starting) \<Longrightarrow>
          P (s\<lparr>spawns := AList.delete p (spawns s),
                settled := AList.update p (Inl e) (settled s),
                pendingCreations := AList.delete k (pendingCreations s)\<rparr>)"
  shows "P (sweep ps s)"
  using assms(1)
proof (induction ps arbitrary: s)
  case Nil
  then show ?case by simp
next
  case (Cons p ps)
  note ih = Cons.prems
  show ?case
  proof (cases "map_of (tasks s) p")
    case None
    then have n: "\<forall>h. map_of (tasks s) p \<noteq> Some (h, Starting)" by simp
    have "P (abort_spawn p s)"
      unfolding abort_spawn_reject by (rule reject_induct [OF ih n rj])
    then show ?thesis using None Cons.IH by simp
  next
    case (Some x)
    obtain h g where x: "x = (h, g)" by (cases x)
    show ?thesis
    proof (cases g)
      case Starting
      have n: "\<forall>k. map_of (tasks (halt p s)) p \<noteq> Some (k, Starting)"
        using Some x Starting by (simp add: halt_not_starting)
      have ph: "P (halt p s)" by (rule halt_induct [OF ih hs hr])
      have "P (abort_spawn p (halt p s))"
        unfolding abort_spawn_reject by (rule reject_induct [OF ph n rj])
      then show ?thesis using Some x Starting Cons.IH by simp
    next
      case Running
      have "P (halt p s)" by (rule halt_induct [OF ih hs hr])
      then show ?thesis using Some x Running by simp
    next
      case Closing
      then show ?thesis using Some x ih by simp
    qed
  qed
qed

lemma terminate_induct:
  assumes "P s"
    and hs: "\<And>s t h. P s \<Longrightarrow> map_of (tasks s) t = Some (h, Starting) \<Longrightarrow>
          P (s\<lparr>events := events s @ [Stopped h],
                servers := AList.delete h (servers s),
                serverTasks := AList.delete h (serverTasks s),
                tasks := AList.delete t (tasks s)\<rparr>)"
    and hr: "\<And>s t h. P s \<Longrightarrow> map_of (tasks s) t = Some (h, Running) \<Longrightarrow>
          P (s\<lparr>events := events s @ [Stopped h],
                servers := AList.delete h (servers s),
                serverTasks := AList.delete h (serverTasks s),
                tasks := AList.update t (h, Closing) (tasks s),
                sockets := AList.update t Draining (sockets s)\<rparr>)"
    and rj: "\<And>s p k e. P s \<Longrightarrow> map_of (spawns s) p = Some k \<Longrightarrow>
          \<forall>h. map_of (tasks s) p \<noteq> Some (h, Starting) \<Longrightarrow>
          P (s\<lparr>spawns := AList.delete p (spawns s),
                settled := AList.update p (Inl e) (settled s),
                pendingCreations := AList.delete k (pendingCreations s)\<rparr>)"
    and fl: "\<And>s. P s \<Longrightarrow> \<not> terminating s \<Longrightarrow>
          P (s\<lparr>eventsClosed := Some (length (events s)), terminating := True\<rparr>)"
  shows "P (terminate s)"
proof (cases "terminating s")
  case True
  then show ?thesis using assms(1) by (simp add: terminate_def)
next
  case False
  have pf: "P (s\<lparr>eventsClosed := Some (length (events s)), terminating := True\<rparr>)"
    by (rule fl [OF assms(1) False])
  have "P (teardown (s\<lparr>eventsClosed := Some (length (events s)), terminating := True\<rparr>))"
    unfolding teardown_def by (rule sweep_induct [OF pf hs hr rj])
  then show ?thesis using False by (simp add: terminate_def)
qed

lemma step_induct:
  assumes "P s"
    and cr: "\<And>s h. P s \<Longrightarrow> creates h s \<Longrightarrow> P (created h s)"
    and er: "\<And>s h. P s \<Longrightarrow>
          P (s\<lparr>events := events s @ [Error h (CapacityExceeded (maxServers s))]\<rparr>)"
    and hs: "\<And>s t h. P s \<Longrightarrow> map_of (tasks s) t = Some (h, Starting) \<Longrightarrow>
          P (s\<lparr>events := events s @ [Stopped h],
                servers := AList.delete h (servers s),
                serverTasks := AList.delete h (serverTasks s),
                tasks := AList.delete t (tasks s)\<rparr>)"
    and hr: "\<And>s t h. P s \<Longrightarrow> map_of (tasks s) t = Some (h, Running) \<Longrightarrow>
          P (s\<lparr>events := events s @ [Stopped h],
                servers := AList.delete h (servers s),
                serverTasks := AList.delete h (serverTasks s),
                tasks := AList.update t (h, Closing) (tasks s),
                sockets := AList.update t Draining (sockets s)\<rparr>)"
    and rj: "\<And>s p k e. P s \<Longrightarrow> map_of (spawns s) p = Some k \<Longrightarrow>
          \<forall>h. map_of (tasks s) p \<noteq> Some (h, Starting) \<Longrightarrow>
          P (s\<lparr>spawns := AList.delete p (spawns s),
                settled := AList.update p (Inl e) (settled s),
                pendingCreations := AList.delete k (pendingCreations s)\<rparr>)"
    and ls: "\<And>s p h q. P s \<Longrightarrow> map_of (sockets s) p = Some Binding \<Longrightarrow>
          map_of (tasks s) p = Some (h, Starting) \<Longrightarrow> map_of (assigned s) p = Some q \<Longrightarrow>
          P (s\<lparr>sockets := AList.update p Listening (sockets s),
                servers := AList.map_entry h
                  (\<lambda>i. if task i = p then i\<lparr>server := Some p\<rparr> else i) (servers s),
                events := events s @ [Started h q],
                tasks := AList.update p (h, Running) (tasks s),
                spawns := AList.delete p (spawns s),
                settled := AList.update p
                  (Inr \<lparr>hostname = h, port = q, server = Some p, task = p\<rparr>) (settled s),
                pendingCreations := AList.delete h (pendingCreations s)\<rparr>)"
    and lo: "\<And>s p. P s \<Longrightarrow> map_of (sockets s) p = Some Binding \<Longrightarrow>
          (\<forall>h. map_of (tasks s) p \<noteq> Some (h, Starting)) \<or> map_of (assigned s) p = None \<Longrightarrow>
          P (s\<lparr>sockets := AList.update p Listening (sockets s)\<rparr>)"
    and fs: "\<And>s p h msg. P s \<Longrightarrow> map_of (sockets s) p = Some Binding \<Longrightarrow>
          map_of (tasks s) p = Some (h, Starting) \<Longrightarrow>
          P (s\<lparr>sockets := AList.delete p (sockets s),
                events := events s @ [Error h (ProvisioningFailed msg), Stopped h],
                servers := AList.delete h (servers s),
                serverTasks := AList.delete h (serverTasks s),
                tasks := AList.delete p (tasks s)\<rparr>)"
    and fo: "\<And>s p. P s \<Longrightarrow> map_of (sockets s) p = Some Binding \<Longrightarrow>
          \<forall>h. map_of (tasks s) p \<noteq> Some (h, Starting) \<Longrightarrow>
          P (s\<lparr>sockets := AList.delete p (sockets s)\<rparr>)"
    and cs: "\<And>s t h. P s \<Longrightarrow> map_of (tasks s) t = Some (h, Running) \<Longrightarrow>
          map_of (sockets s) t = Some Listening \<Longrightarrow>
          P (s\<lparr>sockets := AList.delete t (sockets s),
                events := events s @ [Stopped h],
                servers := AList.delete h (servers s),
                serverTasks := AList.delete h (serverTasks s),
                tasks := AList.update t (h, Closing) (tasks s),
                failing := t # failing s\<rparr>)"
    and rp: "\<And>s t h. P s \<Longrightarrow> map_of (tasks s) t = Some (h, Closing) \<Longrightarrow>
          P (s\<lparr>tasks := AList.delete t (tasks s), sockets := AList.delete t (sockets s)\<rparr>)"
    and fl: "\<And>s. P s \<Longrightarrow> \<not> terminating s \<Longrightarrow>
          P (s\<lparr>eventsClosed := Some (length (events s)), terminating := True\<rparr>)"
  shows "P (step a s)"
proof (cases a)
  case (GetOrCreate h)
  show ?thesis
  proof (cases "creates h s")
    case True
    then show ?thesis using cr [OF assms(1) True] by (simp add: GetOrCreate getOrCreate_creates)
  next
    case False
    with getOrCreate_not_creates [of h s] assms(1) er [OF assms(1)] show ?thesis
      by (auto simp: GetOrCreate emitEvent_def)
  qed
next
  case (Shutdown h)
  have "P (halt t s)" for t by (rule halt_induct [OF assms(1) hs hr])
  then show ?thesis using assms(1) by (simp add: Shutdown shutdown_def split: option.splits)
next
  case (ServerListening p)
  show ?thesis
  proof (cases "map_of (sockets s) p = Some Binding")
    case False
    then show ?thesis using assms(1) by (simp add: ServerListening listening_idle)
  next
    case bind: True
    show ?thesis
    proof (cases "\<exists>h q. map_of (tasks s) p = Some (h, Starting) \<and> map_of (assigned s) p = Some q")
      case True
      then obtain h q where t: "map_of (tasks s) p = Some (h, Starting)"
        and q: "map_of (assigned s) p = Some q" by blast
      show ?thesis using ls [OF assms(1) bind t q]
        by (simp add: ServerListening listening_start [OF bind t q])
    next
      case False
      then have n: "(\<forall>h. map_of (tasks s) p \<noteq> Some (h, Starting)) \<or> map_of (assigned s) p = None"
        by (cases "map_of (assigned s) p") auto
      have "server_listening p s = s\<lparr>sockets := AList.update p Listening (sockets s)\<rparr>"
        using bind n
        by (auto simp: server_listening_def Let_def split: option.splits stage.splits)
      then show ?thesis using lo [OF assms(1) bind n] by (simp add: ServerListening)
    qed
  qed
next
  case (ListenFailed p msg)
  show ?thesis
  proof (cases "map_of (sockets s) p = Some Binding")
    case False
    then show ?thesis using assms(1) by (simp add: ListenFailed failed_idle)
  next
    case bind: True
    show ?thesis
    proof (cases "\<exists>h. map_of (tasks s) p = Some (h, Starting)")
      case True
      then obtain h where t: "map_of (tasks s) p = Some (h, Starting)" by blast
      let ?s4 = "s\<lparr>sockets := AList.delete p (sockets s),
                   events := events s @ [Error h (ProvisioningFailed msg), Stopped h],
                   servers := AList.delete h (servers s),
                   serverTasks := AList.delete h (serverTasks s),
                   tasks := AList.delete p (tasks s)\<rparr>"
      have p4: "P ?s4" by (rule fs [OF assms(1) bind t])
      have g4: "map_of (tasks ?s4) p = None" by (simp add: al)
      have pt: "P (terminate ?s4)" by (rule terminate_induct [OF p4 hs hr rj fl])
      have n: "\<forall>k. map_of (tasks (terminate ?s4)) p \<noteq> Some (k, Starting)"
        using gone_terminate [OF g4] by simp
      have "P (reject_spawn p (ProvisioningFailed msg) (terminate ?s4))"
        by (rule reject_induct [OF pt n rj])
      then show ?thesis by (simp add: ListenFailed failed_starting [OF bind t])
    next
      case False
      then have n: "\<forall>h. map_of (tasks s) p \<noteq> Some (h, Starting)" by blast
      show ?thesis using fo [OF assms(1) bind n]
        by (simp add: ListenFailed failed_other [OF bind n])
    qed
  qed
next
  case (ServerCrashed t)
  show ?thesis
  proof (cases "\<exists>h. map_of (tasks s) t = Some (h, Running) \<and> map_of (sockets s) t = Some Listening")
    case True
    then obtain h where r: "map_of (tasks s) t = Some (h, Running)"
      and l: "map_of (sockets s) t = Some Listening" by blast
    show ?thesis using cs [OF assms(1) r l]
      by (simp add: ServerCrashed crashed_running [OF r l])
  next
    case False
    then have "server_crashed t s = s" by (intro crashed_idle) blast
    then show ?thesis using assms(1) by (simp add: ServerCrashed)
  qed
next
  case (ServerClosed t)
  show ?thesis
  proof (cases "\<exists>h. map_of (tasks s) t = Some (h, Closing)")
    case True
    then obtain h where c: "map_of (tasks s) t = Some (h, Closing)" by blast
    have pr: "P (reap t s)" using rp [OF assms(1) c] by (simp add: reap_def)
    have "P (teardown (reap t s))"
      unfolding teardown_def by (rule sweep_induct [OF pr hs hr rj])
    moreover have "P (terminate (reap t s))" by (rule terminate_induct [OF pr hs hr rj fl])
    ultimately show ?thesis using pr c by (simp add: ServerClosed server_closed_def Let_def)
  next
    case False
    then show ?thesis using assms(1)
      by (auto simp: ServerClosed server_closed_def split: option.splits stage.splits)
  qed
next
  case Terminate
  show ?thesis
    unfolding Terminate step.simps by (rule terminate_induct [OF assms(1) hs hr rj fl])
qed



lemma run_append: "run (as @ bs) s = run bs (run as s)"
  by (simp add: run_def)


lemma run_induct:
  assumes "P s" and "\<And>s a. P s \<Longrightarrow> P (step a s)"
  shows "P (run acts s)"
  by (induction acts rule: rev_induct) (simp_all add: run_snoc assms, simp add: run_def assms)

section \<open>The pool: single calls\<close>

lemmas pool_defs =
  useServerPool_def getOrCreate_def doSpawnServer_def emitEvent_def settle_def cleanup_def
  server_listening_def listen_failed_def halt_def shutdown_def server_crashed_def
  server_closed_def terminate_def teardown_def run_def abort_spawn_def reject_spawn_def
  reap_def incr_def

text \<open>
  C3, as stated, fails: with one server allowed and \<open>a\<close> registered, the rejected call for
  \<open>b\<close> has a side effect, the \<open>error\<close> event it publishes.
\<close>

theorem C3_side_effect_counterexample:
  "map_of (servers (run [GetOrCreate ''a''] (useServerPool 3001 (Some 1)))) ''b'' = None
   \<and> map_of (pendingCreations (run [GetOrCreate ''a''] (useServerPool 3001 (Some 1)))) ''b'' = None
   \<and> length (servers (run [GetOrCreate ''a''] (useServerPool 3001 (Some 1))))
       = maxServers (run [GetOrCreate ''a''] (useServerPool 3001 (Some 1)))
   \<and> snd (getOrCreate ''b'' (run [GetOrCreate ''a''] (useServerPool 3001 (Some 1))))
       \<noteq> run [GetOrCreate ''a''] (useServerPool 3001 (Some 1))
   \<and> events (snd (getOrCreate ''b'' (run [GetOrCreate ''a''] (useServerPool 3001 (Some 1)))))
       = [Error ''b'' (CapacityExceeded 1)]"
  by (simp add: pool_defs Let_def)

text \<open>
  C3, amended: when \<open>getOrCreate(k)\<close> is called with no record for \<open>k\<close>, no pending
  creation for \<open>k\<close> and the registry at capacity, it rejects synchronously with the
  capacity error, and its only effect is to publish an \<open>error\<close> event for \<open>k\<close>: no record
  or pending entry is created, no port is consumed, and the registry is unchanged.
\<close>

theorem C3_capacity_rejection:
  assumes "map_of (servers s) h = None"
    and "map_of (pendingCreations s) h = None"
    and "length (servers s) = maxServers s"
  shows "getOrCreate h s =
           (Rejected (CapacityExceeded (maxServers s)),
            s\<lparr>events := events s @ [Error h (CapacityExceeded (maxServers s))]\<rparr>)"
  using assms by (simp add: getOrCreate_def emitEvent_def)

theorem C3_capacity_rejection_witness:
  "getOrCreate ''b'' (run [GetOrCreate ''a''] (useServerPool 3001 (Some 1))) =
     (Rejected (CapacityExceeded 1),
      (run [GetOrCreate ''a''] (useServerPool 3001 (Some 1)))
        \<lparr>events := [Error ''b'' (CapacityExceeded 1)]\<rparr>)"
  using C3_capacity_rejection [of "run [GetOrCreate ''a''] (useServerPool 3001 (Some 1))" "''b''"]
  by (simp add: pool_defs Let_def)

section \<open>The switchboard: forwarding failures\<close>

text \<open>
  C9, as stated, fails: when the forwarding fails after the response headers have gone
  out, the callback writes nothing, and the client's response keeps its status (here 200).
\<close>

theorem C9_headers_sent_counterexample:
  "get ''a'' (run [GetOrCreate ''a'', ServerListening 0] (useServerPool 3001 None))
     = Some \<lparr>hostname = ''a'', port = 3001, server = Some 0, task = 0\<rparr>
   \<and> fst (proxy_handler \<lparr>host = Some ''a.localhost'', x_app_name = None\<rparr> ''default''
            (ProxyError ''socket hang up'' \<lparr>headersSent = True, statusCode = 200, body = None\<rparr>)
            (run [GetOrCreate ''a'', ServerListening 0] (useServerPool 3001 None)))
       = Responded \<lparr>headersSent = True, statusCode = 200, body = None\<rparr>"
  by (simp add: pool_defs get_def proxy_handler_def proxy_failed_def extractHostname_def
      first_def truthy_def nullish_def Let_def)

text \<open>
  C9, amended: a forwarding failure to a backend that \<open>getOrCreate\<close> resolved on its fast
  path answers the client with status 502 (Bad Gateway) provided the response headers have
  not been sent yet, and otherwise leaves the response as it is; in both cases the pool is
  unchanged: the record stays in the registry with the same ready state and no lifecycle
  event is published.
\<close>

theorem C9_proxy_failure_frame:
  assumes "get (extractHostname req d) s = Some info"
    and "server info \<noteq> None"
  shows "snd (proxy_handler req d (ProxyError msg res) s) = s
         \<and> (\<not> headersSent res \<longrightarrow>
              (\<exists>r. fst (proxy_handler req d (ProxyError msg res) s) = Responded r
                   \<and> statusCode r = 502 \<and> headersSent r))
         \<and> (headersSent res \<longrightarrow>
              fst (proxy_handler req d (ProxyError msg res) s) = Responded res)"
  using assms by (simp add: proxy_handler_def getOrCreate_def get_def proxy_failed_def Let_def)

theorem C9_proxy_failure_frame_witness:
  "snd (proxy_handler \<lparr>host = Some ''a.localhost'', x_app_name = None\<rparr> ''default''
          (ProxyError ''refused'' \<lparr>headersSent = False, statusCode = 200, body = None\<rparr>)
          (run [GetOrCreate ''a'', ServerListening 0] (useServerPool 3001 None)))
     = run [GetOrCreate ''a'', ServerListening 0] (useServerPool 3001 None)
   \<and> fst (proxy_handler \<lparr>host = Some ''a.localhost'', x_app_name = None\<rparr> ''default''
          (ProxyError ''refused'' \<lparr>headersSent = False, statusCode = 200, body = None\<rparr>)
          (run [GetOrCreate ''a'', ServerListening 0] (useServerPool 3001 None)))
     = Responded \<lparr>headersSent = True, statusCode = 502,
         body = Some (''Bad Gateway'', ''Failed to proxy to a: refused'')\<rparr>"
proof -
  let ?s = "run [GetOrCreate ''a'', ServerListening 0] (useServerPool 3001 None)"
  let ?req = "\<lparr>host = Some ''a.localhost'', x_app_name = None\<rparr>"
  let ?info = "\<lparr>hostname = ''a'', port = 3001, server = Some 0, task = 0\<rparr>"
  have key: "extractHostname ?req ''default'' = ''a''"
    by (simp add: extractHostname_def first_def truthy_def nullish_def Let_def)
  have g: "get (extractHostname ?req ''default'') ?s = Some ?info"
    unfolding key by (simp add: pool_defs get_def Let_def)
  have r: "server ?info \<noteq> None" by simp
  from C9_proxy_failure_frame [OF g r, of "''refused''"
      "\<lparr>headersSent = False, statusCode = 200, body = None\<rparr>"]
  have "snd (proxy_handler ?req ''default''
          (ProxyError ''refused'' \<lparr>headersSent = False, statusCode = 200, body = None\<rparr>) ?s) = ?s"
    by simp
  moreover have "fst (proxy_handler ?req ''default''
          (ProxyError ''refused'' \<lparr>headersSent = False, statusCode = 200, body = None\<rparr>) ?s)
     = Responded \<lparr>headersSent = True, statusCode = 502,
         body = Some (''Bad Gateway'', ''Failed to proxy to a: refused'')\<rparr>"
    unfolding proxy_handler_def key
    by (simp add: pool_defs proxy_failed_def Let_def)
  ultimately show ?thesis by simp
qed

section \<open>Deduplication of concurrent calls\<close>

lemma pd_step: "pend_distinct s \<Longrightarrow> pend_distinct (step a s)"
  by (rule step_induct [where P = pend_distinct])
     (auto simp: pend_distinct_def created_def AList.distinct_update AList.distinct_delete)

lemma pd_run: "pend_distinct (run acts (useServerPool b m))"
  by (rule run_induct [where P = pend_distinct])
     (simp add: pend_distinct_def useServerPool_def, rule pd_step)

lemma joined_when_pending:
  assumes "pool_inv s" and "map_of (pendingCreations s) h = Some p"
  shows "getOrCreate h s = (Joined p, s)"
proof -
  have "\<forall>i. map_of (servers s) h = Some i \<longrightarrow> server i = None"
    using J_pendD [OF assms(1) [unfolded pool_inv_def] assms(2)] by blast
  then show ?thesis using assms(2) by (auto simp: getOrCreate_def Let_def split: option.splits)
qed

lemma spawned_effect:
  assumes "fst (getOrCreate h s) = Spawned p"
  shows "creates h s \<and> p = nextTask s \<and> snd (getOrCreate h s) = created h s"
proof (cases "creates h s")
  case True
  then show ?thesis using assms by (simp add: getOrCreate_creates)
next
  case False
  then show ?thesis using assms
    by (auto simp: creates_def getOrCreate_def Let_def split: option.splits if_splits)
qed

lemma starting_unique:
  assumes "pool_inv s" and "map_of (tasks s) p = Some (h, Starting)"
    and "map_of (tasks s) q = Some (h, Starting)"
  shows "p = q"
  by (rule J_uniq [OF assms(1) [unfolded pool_inv_def] assms(3) _ assms(2)]) simp_all

text \<open>
  C1: in every reachable state the pending map has at most one entry per key; a call of
  \<open>getOrCreate(k)\<close> made while a pending creation for \<open>k\<close> exists returns that same
  promise and changes nothing (no second backend, no second port), so both callers receive
  the one outcome of that promise; the call that provisions starts exactly one attempt, takes
  one port from the counter and registers the pending entry in the same step; and no key ever has two lifecycle tasks
  starting at once.
\<close>

theorem C1_deduplication:
  assumes "s = run acts (useServerPool b m)"
  shows "distinct (map fst (pendingCreations s))
    \<and> (\<forall>p. map_of (pendingCreations s) h = Some p \<longrightarrow>
          getOrCreate h s = (Joined p, s)
          \<and> (\<forall>s'. outcome (Joined p) s' = outcome (Spawned p) s'))
    \<and> (\<forall>p. fst (getOrCreate h s) = Spawned p \<longrightarrow>
          map_of (pendingCreations s) h = None
          \<and> p = nextTask s
          \<and> nextTask (snd (getOrCreate h s)) = p + 1
          \<and> nextPort (snd (getOrCreate h s)) = incr (nextPort s)
          \<and> map_of (assigned (snd (getOrCreate h s))) p = Some (nextPort s)
          \<and> map_of (pendingCreations (snd (getOrCreate h s))) h = Some p
          \<and> map_of (tasks (snd (getOrCreate h s))) p = Some (h, Starting))
    \<and> (\<forall>p q. map_of (tasks s) p = Some (h, Starting)
              \<and> map_of (tasks s) q = Some (h, Starting) \<longrightarrow> p = q)"
proof -
  have i: "pool_inv s" unfolding assms by (rule inv_run)
  have d: "distinct (map fst (pendingCreations s))"
    using pd_run [of acts b m] unfolding assms pend_distinct_def .
  have sp: "map_of (pendingCreations s) h = None
          \<and> p = nextTask s
          \<and> nextTask (snd (getOrCreate h s)) = p + 1
          \<and> nextPort (snd (getOrCreate h s)) = incr (nextPort s)
          \<and> map_of (assigned (snd (getOrCreate h s))) p = Some (nextPort s)
          \<and> map_of (pendingCreations (snd (getOrCreate h s))) h = Some p
          \<and> map_of (tasks (snd (getOrCreate h s))) p = Some (h, Starting)"
    if "fst (getOrCreate h s) = Spawned p" for p
    using spawned_effect [OF that] by (simp add: created_def creates_def al)
  show ?thesis
    using d joined_when_pending [OF i] sp starting_unique [OF i] by auto
qed

theorem C1_deduplication_witness:
  "fst (getOrCreate ''a'' (run [] (useServerPool 3001 None))) = Spawned 0
   \<and> getOrCreate ''a'' (run [GetOrCreate ''a''] (useServerPool 3001 None))
       = (Joined 0, run [GetOrCreate ''a''] (useServerPool 3001 None))
   \<and> outcome (Joined 0) (run [GetOrCreate ''a'', ServerListening 0] (useServerPool 3001 None))
       = Some (Inr \<lparr>hostname = ''a'', port = 3001, server = Some 0, task = 0\<rparr>)"
proof -
  let ?s = "run [GetOrCreate ''a''] (useServerPool 3001 None)"
  have p: "map_of (pendingCreations ?s) ''a'' = Some 0"
    by (simp add: pool_defs Let_def)
  from C1_deduplication [OF refl, of "[GetOrCreate ''a'']" 3001 None "''a''"] p
  have "getOrCreate ''a'' ?s = (Joined 0, ?s)" by blast
  then show ?thesis by (simp add: pool_defs Let_def)
qed

section \<open>The placeholder record\<close>

lemma list_servers_ready: "i \<in> set (list_servers s) \<Longrightarrow> server i \<noteq> None"
  by (simp add: list_servers_def)

lemma resolved_ready:
  "fst (getOrCreate h s) = Resolved i \<Longrightarrow> server i \<noteq> None \<and> get h s = Some i"
  by (auto simp: getOrCreate_def get_def Let_def split: option.splits if_splits)

text \<open>
  C10: the call that provisions for key \<open>k\<close> leaves a placeholder record for \<open>k\<close> whose
  service handle is absent, and as long as the lifecycle task for \<open>k\<close> is starting,
  \<open>get(k)\<close> returns that placeholder (with the port assigned to the attempt), \<open>list()\<close>
  does not contain it, and \<open>getOrCreate(k)\<close> does not take the fast path but joins the
  pending promise; \<open>list()\<close> and the fast path only ever return records whose handle is
  populated.
\<close>

theorem C10_placeholder_record:
  assumes "s = run acts (useServerPool b m)"
  shows "(\<forall>p. fst (getOrCreate h s) = Spawned p \<longrightarrow>
            get h (snd (getOrCreate h s))
              = Some \<lparr>hostname = h, port = nextPort s, server = None, task = p\<rparr>)
    \<and> (\<forall>p. map_of (tasks s) p = Some (h, Starting) \<longrightarrow>
            (\<exists>q. map_of (assigned s) p = Some q
                \<and> get h s = Some \<lparr>hostname = h, port = q, server = None, task = p\<rparr>
                \<and> \<lparr>hostname = h, port = q, server = None, task = p\<rparr> \<notin> set (list_servers s))
          \<and> fst (getOrCreate h s) = Joined p)
    \<and> (\<forall>i \<in> set (list_servers s). server i \<noteq> None)
    \<and> (\<forall>i. fst (getOrCreate h s) = Resolved i \<longrightarrow> server i \<noteq> None)"
proof -
  have i: "pool_inv s" unfolding assms by (rule inv_run)
  have a: "get h (snd (getOrCreate h s))
             = Some \<lparr>hostname = h, port = nextPort s, server = None, task = p\<rparr>"
    if "fst (getOrCreate h s) = Spawned p" for p
    using spawned_effect [OF that] by (simp add: get_def created_def al)
  have b: "(\<exists>q. map_of (assigned s) p = Some q
                \<and> get h s = Some \<lparr>hostname = h, port = q, server = None, task = p\<rparr>
                \<and> \<lparr>hostname = h, port = q, server = None, task = p\<rparr> \<notin> set (list_servers s))
          \<and> fst (getOrCreate h s) = Joined p"
    if t: "map_of (tasks s) p = Some (h, Starting)" for p
    using J_startD [OF i [unfolded pool_inv_def] t] joined_when_pending [OF i, of h p]
    by (auto simp: get_def list_servers_def)
  show ?thesis
    using a b list_servers_ready resolved_ready by blast
qed

theorem C10_placeholder_record_witness:
  "get ''a'' (run [GetOrCreate ''a''] (useServerPool 3001 None))
     = Some \<lparr>hostname = ''a'', port = 3001, server = None, task = 0\<rparr>
   \<and> list_servers (run [GetOrCreate ''a''] (useServerPool 3001 None)) = []
   \<and> fst (getOrCreate ''a'' (run [GetOrCreate ''a''] (useServerPool 3001 None))) = Joined 0"
proof -
  let ?s = "run [GetOrCreate ''a''] (useServerPool 3001 None)"
  have t: "map_of (tasks ?s) 0 = Some (''a'', Starting)"
    by (simp add: pool_defs Let_def)
  from C10_placeholder_record [OF refl, where acts = "[GetOrCreate ''a'']" and b = 3001
      and m = None and h = "''a''"] t
  have "fst (getOrCreate ''a'' ?s) = Joined 0" by blast
  moreover have "get ''a'' ?s = Some \<lparr>hostname = ''a'', port = 3001, server = None, task = 0\<rparr>"
    by (simp add: pool_defs get_def Let_def)
  moreover have "list_servers ?s = []" by (simp add: pool_defs list_servers_def Let_def)
  ultimately show ?thesis by simp
qed

section \<open>The capacity cap\<close>

lemma length_update_le: "length (AList.update k v al) \<le> Suc (length al)"
  by (induction al) auto

lemma length_map_entry [simp]: "length (AList.map_entry k f al) = length al"
  by (induction al) auto

lemma length_delete_le': "length al \<le> c \<Longrightarrow> length (AList.delete k al) \<le> c"
  using AList.length_delete_le [of k al] by simp

lemma length_update_lt: "length al < c \<Longrightarrow> length (AList.update k v al) \<le> c"
  using length_update_le [of k v al] by simp

lemma cap_step: "within_cap c s \<Longrightarrow> within_cap c (step a s)"
  by (rule step_induct [where P = "within_cap c"])
     (simp_all add: within_cap_def created_def creates_def length_delete_le' length_update_lt)

lemma cap_run: "within_cap (case m of None \<Rightarrow> 100 | Some k \<Rightarrow> k) (run acts (useServerPool b m))"
  by (rule run_induct [where P = "within_cap (case m of None \<Rightarrow> 100 | Some k \<Rightarrow> k)"])
     (simp add: within_cap_def useServerPool_def, rule cap_step)

text \<open>
  C2: in every reachable state the registry holds at most \<open>maxServers\<close> records; and a
  call of \<open>getOrCreate\<close> that passes the capacity check has registered the new key's record
  in the state it returns, within the one step that made the check, so that no other call
  can run between the check and the registration.
\<close>

theorem C2_capacity:
  assumes "s = run acts (useServerPool b m)"
  shows "length (servers s) \<le> (case m of None \<Rightarrow> 100 | Some k \<Rightarrow> k)
    \<and> maxServers s = (case m of None \<Rightarrow> 100 | Some k \<Rightarrow> k)
    \<and> (\<forall>h p. fst (getOrCreate h s) = Spawned p \<longrightarrow>
          length (servers s) < maxServers s
          \<and> get h (snd (getOrCreate h s))
              = Some \<lparr>hostname = h, port = nextPort s, server = None, task = p\<rparr>
          \<and> length (servers (snd (getOrCreate h s))) \<le> maxServers s)"
proof -
  let ?c = "case m of None \<Rightarrow> 100 | Some k \<Rightarrow> k"
  have c: "within_cap ?c s" unfolding assms by (rule cap_run)
  have sp: "length (servers s) < maxServers s
          \<and> get h (snd (getOrCreate h s))
              = Some \<lparr>hostname = h, port = nextPort s, server = None, task = p\<rparr>
          \<and> length (servers (snd (getOrCreate h s))) \<le> maxServers s"
    if g: "fst (getOrCreate h s) = Spawned p" for h p
  proof -
    from cap_step [OF c, of "GetOrCreate h"] c
    have "length (servers (snd (getOrCreate h s))) \<le> maxServers s"
      by (simp add: within_cap_def)
    then show ?thesis
      using spawned_effect [OF g] by (simp add: creates_def get_def created_def al)
  qed
  show ?thesis using c sp by (simp add: within_cap_def)
qed

theorem C2_capacity_witness:
  "length (servers (run [GetOrCreate ''a'', GetOrCreate ''b'', GetOrCreate ''c'']
                     (useServerPool 3001 (Some 2)))) \<le> 2
   \<and> fst (getOrCreate ''b'' (run [GetOrCreate ''a''] (useServerPool 3001 (Some 2)))) = Spawned 1
   \<and> fst (getOrCreate ''c'' (run [GetOrCreate ''a'', GetOrCreate ''b'']
                               (useServerPool 3001 (Some 2))))
       = Rejected (CapacityExceeded 2)"
proof -
  from C2_capacity [OF refl, where acts = "[GetOrCreate ''a'', GetOrCreate ''b'', GetOrCreate ''c'']"
      and b = 3001 and m = "Some 2"]
  have "length (servers (run [GetOrCreate ''a'', GetOrCreate ''b'', GetOrCreate ''c'']
                     (useServerPool 3001 (Some 2)))) \<le> 2" by simp
  then show ?thesis by (simp add: pool_defs Let_def)
qed

section \<open>Port assignment\<close>

lemma incr_ge: "n \<le> incr n"
  by (simp add: incr_def)

lemma incr_exact: "n < 2 ^ 53 \<Longrightarrow> incr n = Suc n"
  by (simp add: incr_def)

lemma np_step: "n \<le> nextPort s \<Longrightarrow> n \<le> nextPort (step a s)"
  by (rule step_induct [where P = "\<lambda>s. n \<le> nextPort s"])
     (simp_all add: created_def le_trans [OF _ incr_ge])

lemma assigned_created:
  "map_of (assigned (created h s)) (nextTask s) = Some (nextPort s)"
  by (simp add: created_def al)

lemma ports_assigned_head:
  assumes "fst (getOrCreate h s) = Spawned t"
  shows "ports_assigned (GetOrCreate h # acts) s
           = nextPort s # ports_assigned acts (created h s)"
  using assms spawned_effect [OF assms] by (simp add: assigned_created)

lemma ports_assigned_skip:
  assumes "\<forall>h t. a = GetOrCreate h \<longrightarrow> fst (getOrCreate h s) \<noteq> Spawned t"
  shows "ports_assigned (a # acts) s = ports_assigned acts (step a s)"
  using assms by (auto split: action.splits reply.splits)

lemma ports_assigned_lower:
  "p \<in> set (ports_assigned acts s) \<Longrightarrow> nextPort s \<le> p"
proof (induction acts arbitrary: s)
  case Nil
  then show ?case by simp
next
  case (Cons a acts)
  show ?case
  proof (cases "\<exists>h t. a = GetOrCreate h \<and> fst (getOrCreate h s) = Spawned t")
    case True
    then obtain h t where a: "a = GetOrCreate h" and g: "fst (getOrCreate h s) = Spawned t"
      by blast
    from Cons.prems have "p = nextPort s \<or> p \<in> set (ports_assigned acts (created h s))"
      unfolding a ports_assigned_head [OF g] by simp
    then show ?thesis
    proof
      assume "p = nextPort s" then show ?thesis by simp
    next
      assume "p \<in> set (ports_assigned acts (created h s))"
      from Cons.IH [OF this] incr_ge [of "nextPort s"] show ?thesis
        by (simp add: created_def)
    qed
  next
    case False
    then have e: "ports_assigned (a # acts) s = ports_assigned acts (step a s)"
      by (intro ports_assigned_skip) blast
    from Cons.prems [unfolded e] have "p \<in> set (ports_assigned acts (step a s))" .
    from Cons.IH [OF this] np_step [of "nextPort s" s a] show ?thesis by simp
  qed
qed

lemma ports_assigned_sorted:
  "\<forall>p \<in> set (ports_assigned acts s). p < 2 ^ 53 \<Longrightarrow> sorted_wrt (<) (ports_assigned acts s)"
proof (induction acts arbitrary: s)
  case Nil
  then show ?case by simp
next
  case (Cons a acts)
  show ?case
  proof (cases "\<exists>h t. a = GetOrCreate h \<and> fst (getOrCreate h s) = Spawned t")
    case True
    then obtain h t where a: "a = GetOrCreate h" and g: "fst (getOrCreate h s) = Spawned t"
      by blast
    note hd = ports_assigned_head [OF g, of acts]
    from Cons.prems have small: "nextPort s < 2 ^ 53"
      and rest: "\<forall>p \<in> set (ports_assigned acts (created h s)). p < 2 ^ 53"
      unfolding a hd by simp_all
    have n: "nextPort (created h s) = Suc (nextPort s)"
      using incr_exact [OF small] by (simp add: created_def)
    have "\<forall>q \<in> set (ports_assigned acts (created h s)). nextPort s < q"
      using ports_assigned_lower [of _ acts "created h s"] n by (auto simp: Suc_le_eq)
    then show ?thesis unfolding a hd using Cons.IH [OF rest] by simp
  next
    case False
    then have e: "ports_assigned (a # acts) s = ports_assigned acts (step a s)"
      by (intro ports_assigned_skip) blast
    show ?thesis unfolding e using Cons.IH [of "step a s"] Cons.prems [unfolded e] by simp
  qed
qed

text \<open>
  C7, as stated, fails: \<open>nextPort\<close> is a JavaScript number, and \<open>nextPort++\<close> leaves
  \<open>2^53\<close> = 9007199254740992 unchanged. With that base port the keys \<open>a\<close>, \<open>b\<close> and \<open>c\<close>
  are created and torn down, and \<open>d\<close> then gets the very port they had.
\<close>

theorem C7_port_reuse_counterexample:
  "ports_assigned
     [GetOrCreate ''a'', GetOrCreate ''b'', GetOrCreate ''c'',
      Shutdown ''a'', Shutdown ''b'', Shutdown ''c'',
      GetOrCreate ''d'']
     (useServerPool 9007199254740992 None)
   = [9007199254740992, 9007199254740992, 9007199254740992, 9007199254740992]
   \<and> servers (run
     [GetOrCreate ''a'', GetOrCreate ''b'', GetOrCreate ''c'',
      Shutdown ''a'', Shutdown ''b'', Shutdown ''c'']
     (useServerPool 9007199254740992 None)) = []
   \<and> \<not> sorted_wrt (<)
        (ports_assigned
           [GetOrCreate ''a'', GetOrCreate ''b'', GetOrCreate ''c'',
            Shutdown ''a'', Shutdown ''b'', Shutdown ''c'',
            GetOrCreate ''d'']
           (useServerPool 9007199254740992 None))"
  by (simp add: pool_defs Let_def)

text \<open>
  C7, amended: as long as the ports assigned stay below \<open>2^53\<close> (as every valid port
  number does), the ports that the calls of \<open>getOrCreate\<close> assign in any run, from any
  state, are strictly increasing, hence never assigned twice, whatever teardowns happen in
  between; none is below the port counter at the start of the run.
\<close>

theorem C7_ports_increasing:
  assumes "\<forall>p \<in> set (ports_assigned acts s). p < 2 ^ 53"
  shows "sorted_wrt (<) (ports_assigned acts s) \<and> distinct (ports_assigned acts s)
   \<and> (\<forall>p \<in> set (ports_assigned acts s). nextPort s \<le> p)"
  using ports_assigned_sorted [OF assms] ports_assigned_lower [of _ acts s]
  by (auto simp: strict_sorted_iff)

theorem C7_ports_increasing_witness:
  "ports_assigned
     [GetOrCreate ''a'', GetOrCreate ''b'', GetOrCreate ''c'',
      ServerListening 0, ServerListening 1, ServerListening 2,
      Shutdown ''a'', Shutdown ''b'', Shutdown ''c'',
      ServerClosed 0, ServerClosed 1, ServerClosed 2,
      GetOrCreate ''d'']
     (useServerPool 3001 None) = [3001, 3002, 3003, 3004]
   \<and> sorted_wrt (<) [3001, 3002, 3003, 3004 :: nat]
   \<and> servers (run
     [GetOrCreate ''a'', GetOrCreate ''b'', GetOrCreate ''c'',
      ServerListening 0, ServerListening 1, ServerListening 2,
      Shutdown ''a'', Shutdown ''b'', Shutdown ''c'',
      ServerClosed 0, ServerClosed 1, ServerClosed 2]
     (useServerPool 3001 None)) = []"
proof -
  let ?acts = "[GetOrCreate ''a'', GetOrCreate ''b'', GetOrCreate ''c'',
      ServerListening 0, ServerListening 1, ServerListening 2,
      Shutdown ''a'', Shutdown ''b'', Shutdown ''c'',
      ServerClosed 0, ServerClosed 1, ServerClosed 2,
      GetOrCreate ''d'']"
  have e: "ports_assigned ?acts (useServerPool 3001 None) = [3001, 3002, 3003, 3004]"
    by (simp add: pool_defs Let_def)
  have "\<forall>p \<in> set (ports_assigned ?acts (useServerPool 3001 None)). p < 2 ^ 53"
    unfolding e by simp
  from C7_ports_increasing [OF this]
  have "sorted_wrt (<) (ports_assigned ?acts (useServerPool 3001 None))" by blast
  then have "sorted_wrt (<) [3001, 3002, 3003, 3004 :: nat]" unfolding e .
  moreover have "servers (run
     [GetOrCreate ''a'', GetOrCreate ''b'', GetOrCreate ''c'',
      ServerListening 0, ServerListening 1, ServerListening 2,
      Shutdown ''a'', Shutdown ''b'', Shutdown ''c'',
      ServerClosed 0, ServerClosed 1, ServerClosed 2]
     (useServerPool 3001 None)) = []"
    by (simp add: pool_defs Let_def)
  ultimately show ?thesis using e by simp
qed

section \<open>Teardown order and shutdown\<close>






lemma events_reject [simp]: "events (reject_spawn p e s) = events s"
  by (simp add: reject_spawn_def settle_def split: option.splits)










lemma up_frame [simp]:
  "up k (s\<lparr>events := ev\<rparr>) = up k s"
  "up k (s\<lparr>servers := sv\<rparr>) = up k s"
  "up k (s\<lparr>serverTasks := st\<rparr>) = up k s"
  "up k (s\<lparr>sockets := so\<rparr>) = up k s"
  "up k (s\<lparr>spawns := sp\<rparr>) = up k s"
  "up k (s\<lparr>settled := se\<rparr>) = up k s"
  "up k (s\<lparr>pendingCreations := pc\<rparr>) = up k s"
  "up k (s\<lparr>failing := fa\<rparr>) = up k s"
  "up k (s\<lparr>eventsClosed := ec\<rparr>) = up k s"
  "up k (s\<lparr>terminating := tm\<rparr>) = up k s"
  by (simp_all add: up_def)



text \<open>
  What the order admits and what it refuses, for key \<open>a\<close>: \<open>error\<close> then \<open>stopped\<close> is
  in order and so is a \<open>stopped\<close> alone; an \<open>error\<close> that comes after the \<open>stopped\<close> is left
  without one, and nothing but \<open>stopped\<close> may follow an \<open>error\<close>.
\<close>

lemma in_order_examples:
  "in_order ''a'' Down [Error ''a'' (ProvisioningFailed m), Stopped ''a''] = Some Down"
  "in_order ''a'' Down [Started ''a'' p, Stopped ''a''] = Some Down"
  "in_order ''a'' Down [Stopped ''a'', Error ''a'' (ProvisioningFailed m)] = Some Failed"
  "in_order ''a'' Down [Error ''a'' (ProvisioningFailed m), Started ''a'' p] = None"
  "in_order ''a'' Down [Error ''a'' (ProvisioningFailed m), Error ''a'' (ProvisioningFailed m)]
     = None"
  "in_order ''a'' Down [Started ''a'' p, Started ''a'' q] = None"
  by simp_all




section \<open>A failed start, as the callers see it\<close>

text \<open>
  C5 does not hold of the code. Two calls of \<open>getOrCreate(a)\<close> share one provisioning
  attempt and the backend fails to start. The \<open>error\<close> and \<open>stopped\<close> events are sent,
  no \<open>started\<close> event is, and the record and the pending entry are removed, as the claim
  says; but the promise that both callers await rejects with the halt error and not with
  the provisioning failure. The lifecycle task rejects \<open>readyPromise\<close> with the failure
  and then rethrows it, and the failed task takes the pool's scope down, which halts the
  outer task before the rejection reaches it.
\<close>

theorem C5_start_failure_halted:
  "fst (getOrCreate ''a'' (useServerPool 3001 None)) = Spawned 0
   \<and> fst (getOrCreate ''a'' (run [GetOrCreate ''a''] (useServerPool 3001 None))) = Joined 0
   \<and> outcome (Spawned 0)
        (run [GetOrCreate ''a'', GetOrCreate ''a'', ListenFailed 0 ''EADDRINUSE'']
           (useServerPool 3001 None)) = Some (Inl Halted)
   \<and> outcome (Joined 0)
        (run [GetOrCreate ''a'', GetOrCreate ''a'', ListenFailed 0 ''EADDRINUSE'']
           (useServerPool 3001 None)) = Some (Inl Halted)
   \<and> events (run [GetOrCreate ''a'', GetOrCreate ''a'', ListenFailed 0 ''EADDRINUSE'']
               (useServerPool 3001 None))
       = [Error ''a'' (ProvisioningFailed ''EADDRINUSE''), Stopped ''a'']
   \<and> get ''a'' (run [GetOrCreate ''a'', GetOrCreate ''a'', ListenFailed 0 ''EADDRINUSE'']
                 (useServerPool 3001 None)) = None
   \<and> pendingCreations (run [GetOrCreate ''a'', GetOrCreate ''a'', ListenFailed 0 ''EADDRINUSE'']
                         (useServerPool 3001 None)) = []
   \<and> terminating (run [GetOrCreate ''a'', GetOrCreate ''a'', ListenFailed 0 ''EADDRINUSE'']
                    (useServerPool 3001 None))"
  by (simp add: pool_defs get_def Let_def)

section \<open>Pool-wide termination\<close>

text \<open>
  C8 does not hold of the code. The pool holds a ready backend \<open>a\<close> and a backend \<open>b\<close>
  that is still starting when it is terminated. Once the close of \<open>a\<close> is confirmed the
  termination is complete and the registry is empty, as the claim says. But the pool's
  \<open>finally\<close> has closed the event signal before the lifecycle tasks were halted: the two
  \<open>stopped\<close> events are sent afterwards and no subscriber receives them. And the server
  of \<open>b\<close> is never closed: it comes to listen after the termination is complete.
\<close>

theorem C8_termination_stopped_undelivered:
  "terminated (run [GetOrCreate ''a'', ServerListening 0, GetOrCreate ''b'', Terminate,
                    ServerClosed 0] (useServerPool 3001 None))
   \<and> servers (run [GetOrCreate ''a'', ServerListening 0, GetOrCreate ''b'', Terminate,
                    ServerClosed 0] (useServerPool 3001 None)) = []
   \<and> map fst (servers (run [GetOrCreate ''a'', ServerListening 0, GetOrCreate ''b'']
                          (useServerPool 3001 None))) = [''a'', ''b'']
   \<and> events (run [GetOrCreate ''a'', ServerListening 0, GetOrCreate ''b'', Terminate,
                   ServerClosed 0] (useServerPool 3001 None))
       = [Started ''a'' 3001, Stopped ''b'', Stopped ''a'']
   \<and> delivered (run [GetOrCreate ''a'', ServerListening 0, GetOrCreate ''b'', Terminate,
                      ServerClosed 0] (useServerPool 3001 None))
       = [Started ''a'' 3001]
   \<and> map_of (sockets (run [GetOrCreate ''a'', ServerListening 0, GetOrCreate ''b'', Terminate,
                            ServerClosed 0, ServerListening 1] (useServerPool 3001 None))) 1
       = Some Listening
   \<and> terminated (run [GetOrCreate ''a'', ServerListening 0, GetOrCreate ''b'', Terminate,
                      ServerClosed 0, ServerListening 1] (useServerPool 3001 None))"
  by (simp add: pool_defs delivered_def terminated_def Let_def)

end
